theory Spec2Isabelle
  imports Complex_Main
begin

section \<open>The Minesweeper grid engine\<close>

text \<open>
  A shallow embedding of the \<^verbatim>\<open>Board\<close> module (board creation, mine placement,
  reveal, chord, flag toggling), of \<^verbatim>\<open>PowerUps.collect\<close> / \<^verbatim>\<open>PowerUps.consumeShield\<close>
  and of the session handler \<^verbatim>\<open>handleReveal\<close>.

  JavaScript cells are mutable objects shared by reference between \<^verbatim>\<open>board.cells\<close>, the
  work list of \<^verbatim>\<open>revealCell\<close> and the result objects. The model keeps the cells in the
  list \<open>cells\<close> of the board, which plays the role of the store; a reference to a cell is
  its position in that list (a \<open>nat\<close>), and every function that mutates a cell returns
  the updated board.
\<close>

subsection \<open>Data model\<close>

record cell =
  row :: int
  col :: int
  index :: int
  isMine :: bool
  isRevealed :: bool
  isFlagged :: bool
  isQuestion :: bool
  adjacentMines :: nat
  powerup :: "string option"
  wrongFlag :: bool
  exploded :: bool

text \<open>
  \<open>types\<close> is the object \<^verbatim>\<open>powerupConfig.types\<close> as the list of its entries in key
  order (kind, duration or cell count); \<^verbatim>\<open>Object.keys\<close> is \<open>map fst\<close>.
\<close>

record powerupConfig =
  enabled :: bool
  spawnChance :: rat
  types :: "(string \<times> rat) list"

record board =
  rows :: int
  cols :: int
  mineCount :: int
  cells :: "cell list"
  minesPlaced :: bool
  powerupConfig :: "powerupConfig option"

text \<open>
  The result object of \<^verbatim>\<open>revealCell\<close> and \<^verbatim>\<open>chordReveal\<close>. \<open>revealed\<close> and
  \<open>explodedCell\<close> hold cell references; a field that is absent or \<^verbatim>\<open>null\<close> in the
  JavaScript object is \<open>None\<close>. The field \<^verbatim>\<open>powerup\<close> of the result is called
  \<open>powerupFound\<close> here, because the cell record already has a field \<open>powerup\<close>.
\<close>

record revealResult =
  revealed :: "nat list"
  hitMine :: bool
  explodedCell :: "nat option"
  powerupFound :: "string option"

record toggleResult =
  changed :: bool
  changedCell :: "nat option"

datatype error = InvalidDimensions

subsection \<open>The random source\<close>

text \<open>
  \<^verbatim>\<open>Math.random()\<close> is modelled by an explicit random source that is threaded through
  the functions that draw from it: an infinite sequence of rationals. A draw takes the
  fractional part of the next element, so that every draw lies in \<open>[0, 1)\<close> as the
  result of \<^verbatim>\<open>Math.random()\<close> does, and returns the rest of the sequence.
\<close>

type_synonym rng = "nat \<Rightarrow> rat"

definition Math_random :: "rng \<Rightarrow> rat \<times> rng" where
  "Math_random g = (frac (g 0), (\<lambda>n. g (Suc n)))"

text \<open>\<^verbatim>\<open>Math.floor(Math.random() * n)\<close>\<close>

definition randomIndex :: "rng \<Rightarrow> nat \<Rightarrow> nat \<times> rng" where
  "randomIndex g n = (nat \<lfloor>fst (Math_random g) * of_nat n\<rfloor>, snd (Math_random g))"

subsection \<open>create, getCell, getAdjacentCells\<close>

definition newCell :: "int \<Rightarrow> int \<Rightarrow> int \<Rightarrow> cell" where
  "newCell r c cs =
     \<lparr>row = r, col = c, index = r * cs + c, isMine = False, isRevealed = False,
      isFlagged = False, isQuestion = False, adjacentMines = 0, powerup = None,
      wrongFlag = False, exploded = False\<rparr>"

text \<open>
  The two nested \<^verbatim>\<open>for\<close> loops of \<^verbatim>\<open>create\<close>: \<^verbatim>\<open>row\<close> runs over \<open>0 .. rows - 1\<close> and
  \<^verbatim>\<open>col\<close> over \<open>0 .. cols - 1\<close>; neither loop body runs when the bound is not positive.
  The source has no \<^verbatim>\<open>throw\<close>: every call returns a board.
\<close>

definition create :: "int \<Rightarrow> int \<Rightarrow> int \<Rightarrow> powerupConfig option \<Rightarrow> board" where
  "create rs cs mc pc =
     \<lparr>rows = rs, cols = cs, mineCount = mc,
      cells = concat (map (\<lambda>r. map (\<lambda>c. newCell (int r) (int c) cs) [0..<nat cs]) [0..<nat rs]),
      minesPlaced = False, powerupConfig = pc\<rparr>"

text \<open>
  The specification's reading of \<^verbatim>\<open>create\<close>, written from its words
  (``Fails with InvalidDimensions if rows\<le>0, cols\<le>0''), to be compared with the code.
\<close>

definition create_spec :: "int \<Rightarrow> int \<Rightarrow> int \<Rightarrow> powerupConfig option \<Rightarrow> error + board" where
  "create_spec rs cs mc pc =
     (if rs \<le> 0 \<or> cs \<le> 0 then Inl InvalidDimensions else Inr (create rs cs mc pc))"

text \<open>
  \<^verbatim>\<open>getCell\<close> returns \<^verbatim>\<open>null\<close> out of bounds and \<^verbatim>\<open>board.cells[row * cols + col]\<close>
  otherwise, which is \<^verbatim>\<open>undefined\<close> when the array is shorter than that. Every caller
  only tests the result for truthiness, so both are \<open>None\<close>.
\<close>

definition getCell :: "board \<Rightarrow> int \<Rightarrow> int \<Rightarrow> nat option" where
  "getCell b r c =
     (if r < 0 \<or> r \<ge> rows b \<or> c < 0 \<or> c \<ge> cols b then None
      else if nat (r * cols b + c) < length (cells b) then Some (nat (r * cols b + c))
      else None)"

definition cellAt :: "board \<Rightarrow> nat \<Rightarrow> cell" where
  "cellAt b i = cells b ! i"

definition directions :: "(int \<times> int) list" where
  "directions = [(-1, -1), (-1, 0), (-1, 1), (0, -1), (0, 1), (1, -1), (1, 0), (1, 1)]"

definition getAdjacentCells :: "board \<Rightarrow> int \<Rightarrow> int \<Rightarrow> nat list" where
  "getAdjacentCells b r c =
     List.map_filter (\<lambda>(dr, dc). getCell b (r + dr) (c + dc)) directions"

subsection \<open>placeMines\<close>

text \<open>
  \<^verbatim>\<open>shuffleArray\<close> (Fisher--Yates): for \<open>i\<close> from \<open>length - 1\<close> down to \<open>1\<close>, draw
  \<open>j = \<lfloor>random * (i + 1)\<rfloor>\<close> and swap the elements at \<open>i\<close> and \<open>j\<close>. The first
  argument of \<open>shuffleLoop\<close> is the loop variable \<open>i\<close>.
\<close>

fun shuffleLoop :: "nat \<Rightarrow> rng \<Rightarrow> 'a list \<Rightarrow> 'a list \<times> rng" where
  "shuffleLoop 0 g xs = (xs, g)"
| "shuffleLoop (Suc k) g xs =
     (case randomIndex g (Suc k + 1) of
        (j, g') \<Rightarrow> shuffleLoop k g' (xs[Suc k := xs ! j, j := xs ! Suc k]))"

definition shuffleArray :: "rng \<Rightarrow> 'a list \<Rightarrow> 'a list \<times> rng" where
  "shuffleArray g xs = shuffleLoop (length xs - 1) g xs"

text \<open>
  \<^verbatim>\<open>array.slice(0, e)\<close>: a negative \<open>e\<close> counts from the end of the array, and the end
  is clamped to the array.
\<close>

definition slice0 :: "'a list \<Rightarrow> int \<Rightarrow> 'a list" where
  "slice0 xs e =
     (if e < 0 then take (nat (max (int (length xs) + e) 0)) xs
      else take (nat (min e (int (length xs)))) xs)"

definition setMine :: "board \<Rightarrow> nat \<Rightarrow> board" where
  "setMine b pos = b\<lparr>cells := (cells b)[pos := (cellAt b pos)\<lparr>isMine := True\<rparr>]\<rparr>"

text \<open>\<^verbatim>\<open>adjacent.filter(c => c.isMine).length\<close> for the cell at position \<open>i\<close>.\<close>

definition countAdjacentMines :: "board \<Rightarrow> nat \<Rightarrow> nat" where
  "countAdjacentMines b i =
     length (filter (\<lambda>j. isMine (cellAt b j))
       (getAdjacentCells b (row (cellAt b i)) (col (cellAt b i))))"

text \<open>One iteration of the loop ``Calculate adjacent mine counts''.\<close>

definition setAdjacent :: "board \<Rightarrow> nat \<Rightarrow> board" where
  "setAdjacent b i =
     (if \<not> isMine (cellAt b i)
      then b\<lparr>cells := (cells b)[i := (cellAt b i)\<lparr>adjacentMines := countAdjacentMines b i\<rparr>]\<rparr>
      else b)"

definition calcAdjacent :: "board \<Rightarrow> board" where
  "calcAdjacent b = foldl setAdjacent b [0..<length (cells b)]"

text \<open>
  \<^verbatim>\<open>placePowerups\<close>: \<open>safeCells\<close> is computed once, before the loop. For each of them one
  draw decides whether a power-up spawns and, if so, a second draw picks its kind;
  \<^verbatim>\<open>powerupTypes[k]\<close> is \<^verbatim>\<open>undefined\<close> (here \<open>None\<close>) when there is no kind at \<open>k\<close>.
  \<^verbatim>\<open>spawnChance || 0.05\<close> replaces a zero chance by \<open>0.05\<close>.
\<close>

fun powerupLoop :: "string list \<Rightarrow> rat \<Rightarrow> board \<Rightarrow> nat list \<Rightarrow> rng \<Rightarrow> board \<times> rng" where
  "powerupLoop ts ch b [] g = (b, g)"
| "powerupLoop ts ch b (i # is) g =
     (case Math_random g of
        (r, g1) \<Rightarrow>
          if r < ch then
            (case randomIndex g1 (length ts) of
               (k, g2) \<Rightarrow>
                 powerupLoop ts ch
                   (b\<lparr>cells := (cells b)[i := (cellAt b i)
                        \<lparr>powerup := (if k < length ts then Some (ts ! k) else None)\<rparr>]\<rparr>)
                   is g2)
          else powerupLoop ts ch b is g1)"

definition placePowerups :: "powerupConfig \<Rightarrow> board \<Rightarrow> rng \<Rightarrow> board \<times> rng" where
  "placePowerups pc b g =
     powerupLoop (map fst (types pc))
       (if spawnChance pc = 0 then 5 / 100 else spawnChance pc)
       b
       (filter (\<lambda>i. \<not> isMine (cellAt b i) \<and> adjacentMines (cellAt b i) > 0)
          [0..<length (cells b)])
       g"

text \<open>The set \<^verbatim>\<open>safeZone\<close> of cell indices, as the list of its insertions.\<close>

definition safeZone :: "board \<Rightarrow> int \<Rightarrow> int \<Rightarrow> int list" where
  "safeZone b safeRow safeCol =
     (safeRow * cols b + safeCol) #
       map (\<lambda>i. index (cellAt b i)) (getAdjacentCells b safeRow safeCol)"

definition validPositions :: "board \<Rightarrow> int \<Rightarrow> int \<Rightarrow> nat list" where
  "validPositions b safeRow safeCol =
     filter (\<lambda>i. int i \<notin> set (safeZone b safeRow safeCol)) [0..<length (cells b)]"

definition minePositions :: "board \<Rightarrow> int \<Rightarrow> int \<Rightarrow> rng \<Rightarrow> nat list" where
  "minePositions b safeRow safeCol g =
     (let shuffled = fst (shuffleArray g (validPositions b safeRow safeCol))
      in slice0 shuffled (min (mineCount b) (int (length shuffled))))"

definition placeMines :: "board \<Rightarrow> int \<Rightarrow> int \<Rightarrow> rng \<Rightarrow> board \<times> rng" where
  "placeMines b safeRow safeCol g =
     (if minesPlaced b then (b, g)
      else
        let g1 = snd (shuffleArray g (validPositions b safeRow safeCol));
            b1 = foldl setMine b (minePositions b safeRow safeCol g);
            b2 = calcAdjacent b1;
            (b3, g2) = (case powerupConfig b2 of
                          None \<Rightarrow> (b2, g1)
                        | Some pc \<Rightarrow> if enabled pc then placePowerups pc b2 g1 else (b2, g1))
        in (b3\<lparr>minesPlaced := True\<rparr>, g2))"

subsection \<open>revealCell\<close>

definition setRevealed :: "board \<Rightarrow> nat \<Rightarrow> board" where
  "setRevealed b i = b\<lparr>cells := (cells b)[i := (cellAt b i)\<lparr>isRevealed := True\<rparr>]\<rparr>"

text \<open>
  Truthiness of a power-up field (\<^verbatim>\<open>if (current.powerup)\<close>): \<^verbatim>\<open>null\<close>,
  \<^verbatim>\<open>undefined\<close> and the empty string are falsy.
\<close>

definition truthy :: "string option \<Rightarrow> bool" where
  "truthy p = (case p of None \<Rightarrow> False | Some k \<Rightarrow> k \<noteq> [])"

definition hasPowerup :: "cell \<Rightarrow> bool" where
  "hasPowerup c = truthy (powerup c)"

definition unrevealedCount :: "board \<Rightarrow> nat" where
  "unrevealedCount b = length (filter (\<lambda>c. \<not> isRevealed c) (cells b))"

text \<open>The neighbours that the cascade pushes: not revealed, not flagged, not a mine.\<close>

definition cascadeNeighbours :: "board \<Rightarrow> nat \<Rightarrow> nat list" where
  "cascadeNeighbours b i =
     filter (\<lambda>j. \<not> isRevealed (cellAt b j) \<and> \<not> isFlagged (cellAt b j) \<and> \<not> isMine (cellAt b j))
       (getAdjacentCells b (row (cellAt b i)) (col (cellAt b i)))"

text \<open>
  The \<^verbatim>\<open>while\<close> loop of \<^verbatim>\<open>revealCell\<close>. The work list \<^verbatim>\<open>toReveal\<close> is a stack:
  \<^verbatim>\<open>pop\<close> takes the last element and \<^verbatim>\<open>push\<close> appends, so the model keeps the top of
  the stack at the head of the list and pushes the neighbours in reverse. The third
  argument \<open>acc\<close> is the array \<^verbatim>\<open>revealed\<close>.

  A JavaScript reference always points to a cell of the board. The first test below
  gives the function a value on positions outside the cell list, which no caller
  passes; it is what makes the recursion total.
\<close>

function revealLoop :: "board \<Rightarrow> nat list \<Rightarrow> nat list \<Rightarrow> board \<times> revealResult" where
  "revealLoop b [] acc =
     (b, \<lparr>revealed = acc, hitMine = False, explodedCell = None, powerupFound = None\<rparr>)"
| "revealLoop b (cur # rest) acc =
     (if length (cells b) \<le> cur then revealLoop b rest acc
      else if isRevealed (cellAt b cur) \<or> isFlagged (cellAt b cur) then revealLoop b rest acc
      else if isMine (cellAt b cur) then
        (setRevealed b cur,
         \<lparr>revealed = acc @ [cur], hitMine = True, explodedCell = Some cur,
          powerupFound = None\<rparr>)
      else if hasPowerup (cellAt b cur) then
        (setRevealed b cur,
         \<lparr>revealed = acc @ [cur], hitMine = False, explodedCell = None,
          powerupFound = powerup (cellAt b cur)\<rparr>)
      else if adjacentMines (cellAt b cur) = 0 then
        revealLoop (setRevealed b cur)
          (rev (cascadeNeighbours (setRevealed b cur) cur) @ rest) (acc @ [cur])
      else revealLoop (setRevealed b cur) rest (acc @ [cur]))"
  by pat_completeness auto

definition emptyResult :: revealResult where
  "emptyResult = \<lparr>revealed = [], hitMine = False, explodedCell = None, powerupFound = None\<rparr>"

termination revealLoop
proof -
  have dec: "unrevealedCount (setRevealed b cur) < unrevealedCount b"
    if "cur < length (cells b)" "\<not> isRevealed (cellAt b cur)" for b cur
  proof -
    let ?xs = "cells b"
    let ?P = "\<lambda>c. \<not> isRevealed c"
    have old: "?xs = take cur ?xs @ (?xs ! cur) # drop (Suc cur) ?xs"
      using that(1) by (simp add: id_take_nth_drop)
    have new: "cells (setRevealed b cur) =
        take cur ?xs @ ((?xs ! cur)\<lparr>isRevealed := True\<rparr>) # drop (Suc cur) ?xs"
      using that(1) by (simp add: setRevealed_def cellAt_def upd_conv_take_nth_drop)
    have "length (filter ?P ?xs) =
        length (filter ?P (take cur ?xs)) + 1 + length (filter ?P (drop (Suc cur) ?xs))"
      using that(2) by (subst old) (simp add: cellAt_def)
    moreover have "length (filter ?P (cells (setRevealed b cur))) =
        length (filter ?P (take cur ?xs)) + length (filter ?P (drop (Suc cur) ?xs))"
      by (subst new) simp
    ultimately show ?thesis by (simp add: unrevealedCount_def)
  qed
  show ?thesis
    by (relation "measures [\<lambda>(b, w, a). unrevealedCount b, \<lambda>(b, w, a). length w]")
       (simp_all add: dec)
qed


definition revealCell :: "board \<Rightarrow> int \<Rightarrow> int \<Rightarrow> board \<times> revealResult" where
  "revealCell b r c =
     (case getCell b r c of
        None \<Rightarrow> (b, emptyResult)
      | Some i \<Rightarrow>
          if isRevealed (cellAt b i) \<or> isFlagged (cellAt b i) then (b, emptyResult)
          else revealLoop b [i] [])"

subsection \<open>chordReveal\<close>

text \<open>
  The body of the loop over \<^verbatim>\<open>adjacent\<close> merges one \<^verbatim>\<open>revealResult\<close> into \<^verbatim>\<open>result\<close>:
  the revealed cells are appended; a mine hit sets \<^verbatim>\<open>hitMine\<close> and assigns
  \<^verbatim>\<open>explodedCell\<close>; a truthy \<^verbatim>\<open>powerup\<close> is assigned to \<^verbatim>\<open>result.powerup\<close>.
\<close>

definition mergeResult :: "revealResult \<Rightarrow> revealResult \<Rightarrow> revealResult" where
  "mergeResult res rr =
     \<lparr>revealed = revealed res @ revealed rr,
      hitMine = (if hitMine rr then True else hitMine res),
      explodedCell = (if hitMine rr then explodedCell rr else explodedCell res),
      powerupFound = (if truthy (powerupFound rr) then powerupFound rr else powerupFound res)\<rparr>"

fun chordLoop :: "board \<Rightarrow> nat list \<Rightarrow> revealResult \<Rightarrow> board \<times> revealResult" where
  "chordLoop b [] res = (b, res)"
| "chordLoop b (adj # rest) res =
     (if \<not> isRevealed (cellAt b adj) \<and> \<not> isFlagged (cellAt b adj) then
        (case revealCell b (row (cellAt b adj)) (col (cellAt b adj)) of
           (b', rr) \<Rightarrow> chordLoop b' rest (mergeResult res rr))
      else chordLoop b rest res)"

definition flaggedCount :: "board \<Rightarrow> int \<Rightarrow> int \<Rightarrow> nat" where
  "flaggedCount b r c = length (filter (\<lambda>j. isFlagged (cellAt b j)) (getAdjacentCells b r c))"

definition chordReveal :: "board \<Rightarrow> int \<Rightarrow> int \<Rightarrow> board \<times> revealResult" where
  "chordReveal b r c =
     (case getCell b r c of
        None \<Rightarrow> (b, emptyResult)
      | Some i \<Rightarrow>
          if \<not> isRevealed (cellAt b i) \<or> adjacentMines (cellAt b i) = 0 then (b, emptyResult)
          else if flaggedCount b r c \<noteq> adjacentMines (cellAt b i) then (b, emptyResult)
          else chordLoop b (getAdjacentCells b r c) emptyResult)"

subsection \<open>toggleFlag, checkWin, getFlagCount, revealAllMines\<close>

definition toggleCell :: "cell \<Rightarrow> cell" where
  "toggleCell c =
     (if isFlagged c then c\<lparr>isFlagged := False, isQuestion := True\<rparr>
      else if isQuestion c then c\<lparr>isQuestion := False\<rparr>
      else c\<lparr>isFlagged := True\<rparr>)"

definition toggleFlag :: "board \<Rightarrow> int \<Rightarrow> int \<Rightarrow> board \<times> toggleResult" where
  "toggleFlag b r c =
     (case getCell b r c of
        None \<Rightarrow> (b, \<lparr>changed = False, changedCell = None\<rparr>)
      | Some i \<Rightarrow>
          if isRevealed (cellAt b i) then (b, \<lparr>changed = False, changedCell = None\<rparr>)
          else (b\<lparr>cells := (cells b)[i := toggleCell (cellAt b i)]\<rparr>,
                \<lparr>changed = True, changedCell = Some i\<rparr>))"

definition checkWin :: "board \<Rightarrow> bool" where
  "checkWin b = list_all (\<lambda>c. isMine c \<or> isRevealed c) (cells b)"

definition getFlagCount :: "board \<Rightarrow> nat" where
  "getFlagCount b = length (filter isFlagged (cells b))"

definition revealMine :: "cell \<Rightarrow> cell" where
  "revealMine c =
     (if isMine c \<and> \<not> isFlagged c then c\<lparr>isRevealed := True\<rparr>
      else if \<not> isMine c \<and> isFlagged c then c\<lparr>wrongFlag := True\<rparr>
      else c)"

definition revealAllMines :: "board \<Rightarrow> board \<times> nat list" where
  "revealAllMines b =
     (b\<lparr>cells := map revealMine (cells b)\<rparr>,
      filter (\<lambda>i. (isMine (cellAt b i) \<and> \<not> isFlagged (cellAt b i)) \<or>
                   (\<not> isMine (cellAt b i) \<and> isFlagged (cellAt b i)))
        [0..<length (cells b)])"

subsection \<open>The session: PowerUps.collect, PowerUps.consumeShield, gameOver, handleReveal\<close>

datatype gameState = Idle | Playing | Won | Lost

text \<open>
  An inventory entry \<^verbatim>\<open>{type, id}\<close>; the field \<^verbatim>\<open>type\<close> is called \<open>kind\<close> and
  \<^verbatim>\<open>id\<close> is called \<open>ident\<close>.
\<close>

record inventoryItem =
  kind :: string
  ident :: rat

text \<open>
  The module-level variables of the game and of \<^verbatim>\<open>PowerUps\<close> that \<^verbatim>\<open>handleReveal\<close>
  reads or writes. \<open>timerInterval\<close> is whether the interval handle is set. Calls into
  the user interface and the sound module do not change any of them and are left out.
\<close>

record session =
  board :: board
  gameState :: gameState
  timerInterval :: bool
  inventory :: "inventoryItem list"
  shieldActive :: bool

text \<open>\<^verbatim>\<open>PowerUps.consumeShield\<close>: the returned flag and the new state.\<close>

definition consumeShield :: "session \<Rightarrow> bool \<times> session" where
  "consumeShield s =
     (if \<not> shieldActive s then (False, s) else (True, s\<lparr>shieldActive := False\<rparr>))"

text \<open>
  \<^verbatim>\<open>PowerUps.collect\<close>; \<open>now\<close> is \<^verbatim>\<open>Date.now()\<close>, and the identifier draws from the
  random source.
\<close>

definition collect :: "session \<Rightarrow> string \<Rightarrow> rat \<Rightarrow> rng \<Rightarrow> session \<times> rng" where
  "collect s k now g =
     (if k = ''shield'' then (s\<lparr>shieldActive := True\<rparr>, g)
      else (s\<lparr>inventory := inventory s @ [\<lparr>kind = k, ident = now + fst (Math_random g)\<rparr>]\<rparr>,
            snd (Math_random g)))"

definition flagMine :: "cell \<Rightarrow> cell" where
  "flagMine c = (if isMine c \<and> \<not> isFlagged c then c\<lparr>isFlagged := True\<rparr> else c)"

definition markExploded :: "board \<Rightarrow> nat option \<Rightarrow> board" where
  "markExploded b e =
     (case e of
        None \<Rightarrow> b
      | Some i \<Rightarrow> b\<lparr>cells := (cells b)[i := (cellAt b i)\<lparr>exploded := True\<rparr>]\<rparr>)"

definition gameOver :: "session \<Rightarrow> bool \<Rightarrow> nat option \<Rightarrow> session" where
  "gameOver s won e =
     (if won then
        s\<lparr>gameState := Won, timerInterval := False,
          board := (board s)\<lparr>cells := map flagMine (cells (board s))\<rparr>\<rparr>
      else
        s\<lparr>gameState := Lost, timerInterval := False,
          board := fst (revealAllMines (markExploded (board s) e))\<rparr>)"

text \<open>
  The shield branch of \<^verbatim>\<open>handleReveal\<close>: \<^verbatim>\<open>explodedCell.isRevealed = false\<close> and
  \<^verbatim>\<open>explodedCell.isFlagged = true\<close>. A result with \<^verbatim>\<open>hitMine\<close> always carries its
  \<^verbatim>\<open>explodedCell\<close>.
\<close>

definition shieldCell :: "board \<Rightarrow> nat option \<Rightarrow> board" where
  "shieldCell b e =
     (case e of
        None \<Rightarrow> b
      | Some i \<Rightarrow>
          b\<lparr>cells := (cells b)[i := (cellAt b i)\<lparr>isRevealed := False, isFlagged := True\<rparr>]\<rparr>)"

text \<open>The first-click step of \<^verbatim>\<open>handleReveal\<close>: place the mines and start the timer.\<close>

definition firstClick :: "session \<Rightarrow> int \<Rightarrow> int \<Rightarrow> rng \<Rightarrow> session \<times> rng" where
  "firstClick s r c g =
     (if \<not> minesPlaced (board s) then
        (s\<lparr>board := fst (placeMines (board s) r c g), gameState := Playing,
           timerInterval := True\<rparr>,
         snd (placeMines (board s) r c g))
      else (s, g))"

text \<open>What \<^verbatim>\<open>handleReveal\<close> does with the result of \<^verbatim>\<open>Board.revealCell\<close>.\<close>

definition afterReveal :: "session \<Rightarrow> revealResult \<Rightarrow> rat \<Rightarrow> rng \<Rightarrow> session \<times> rng" where
  "afterReveal s res now g =
     (if hitMine res then
        (if fst (consumeShield s) then
           ((snd (consumeShield s))\<lparr>board := shieldCell (board s) (explodedCell res)\<rparr>, g)
         else (gameOver s False (explodedCell res), g))
      else
        (case (case powerupFound res of
                 None \<Rightarrow> (s, g)
               | Some k \<Rightarrow> if truthy (Some k) then collect s k now g else (s, g)) of
           (s', g') \<Rightarrow> if checkWin (board s') then (gameOver s' True None, g') else (s', g')))"

definition handleReveal :: "session \<Rightarrow> int \<Rightarrow> int \<Rightarrow> rat \<Rightarrow> rng \<Rightarrow> session \<times> rng" where
  "handleReveal s r c now g =
     (if gameState s = Won \<or> gameState s = Lost then (s, g)
      else
        (case getCell (board s) r c of
           None \<Rightarrow> (s, g)
         | Some i \<Rightarrow>
             if isRevealed (cellAt (board s) i) \<or> isFlagged (cellAt (board s) i) then (s, g)
             else
               (case firstClick s r c g of
                  (s1, g1) \<Rightarrow>
                    (case revealCell (board s1) r c of
                       (b2, res) \<Rightarrow> afterReveal (s1\<lparr>board := b2\<rparr>) res now g1))))"

subsection \<open>Notions used to state the properties\<close>

text \<open>A coordinate pair outside the grid, by the bounds alone.\<close>

definition outOfRange :: "board \<Rightarrow> int \<Rightarrow> int \<Rightarrow> bool" where
  "outOfRange b r c = (r < 0 \<or> rows b \<le> r \<or> c < 0 \<or> cols b \<le> c)"

text \<open>The three marks of an unrevealed cell, and ``exactly one of them holds''.\<close>

definition unmarked :: "cell \<Rightarrow> bool" where
  "unmarked c = (\<not> isFlagged c \<and> \<not> isQuestion c)"

definition flagged :: "cell \<Rightarrow> bool" where
  "flagged c = (isFlagged c \<and> \<not> isQuestion c)"

definition questioned :: "cell \<Rightarrow> bool" where
  "questioned c = (\<not> isFlagged c \<and> isQuestion c)"

definition oneMark :: "cell \<Rightarrow> bool" where
  "oneMark c = (length (filter id [unmarked c, flagged c, questioned c]) = 1)"

text \<open>A sequence of \<^verbatim>\<open>toggleFlag\<close> calls, each on the board the previous one left.\<close>

definition toggleAll :: "board \<Rightarrow> (int \<times> int) list \<Rightarrow> board" where
  "toggleAll b calls = foldl (\<lambda>b' (r, c). fst (toggleFlag b' r c)) b calls"

text \<open>The cells that a run of the loop appends to \<^verbatim>\<open>revealed\<close>.\<close>

definition newlyRevealed :: "board \<Rightarrow> nat list \<Rightarrow> nat list \<Rightarrow> nat list" where
  "newlyRevealed b wl acc = drop (length acc) (revealed (snd (revealLoop b wl acc)))"

text \<open>The entries of a work list that the loop will not skip.\<close>

definition live :: "board \<Rightarrow> nat list \<Rightarrow> nat set" where
  "live b wl =
     {w \<in> set wl. w < length (cells b) \<and> \<not> isRevealed (cellAt b w) \<and> \<not> isFlagged (cellAt b w)}"

text \<open>
  The connected zero-adjacency component of cell \<open>i\<close> together with its bordering cells,
  by adjacency alone: \<open>i\<close> itself, and every neighbour of a cell of the region whose
  \<open>adjacentMines\<close> is 0.
\<close>

inductive_set floodRegion :: "board \<Rightarrow> nat \<Rightarrow> nat set" for b :: board and i :: nat where
  start: "i \<in> floodRegion b i"
| step: "x \<in> floodRegion b i \<Longrightarrow> adjacentMines (cellAt b x) = 0 \<Longrightarrow>
         y \<in> set (getAdjacentCells b (row (cellAt b x)) (col (cellAt b x))) \<Longrightarrow>
         y \<in> floodRegion b i"

text \<open>
  The part of such a region that is open to a cascade started from the cells \<open>S\<close>: the
  steps only lead onto neighbours that are not revealed, not flagged and not a mine.
\<close>

inductive_set openRegion :: "board \<Rightarrow> nat set \<Rightarrow> nat set" for b :: board and S :: "nat set" where
  start: "x \<in> S \<Longrightarrow> x \<in> openRegion b S"
| step: "x \<in> openRegion b S \<Longrightarrow> adjacentMines (cellAt b x) = 0 \<Longrightarrow>
         y \<in> set (cascadeNeighbours b x) \<Longrightarrow> y \<in> openRegion b S"

text \<open>
  The results of the \<^verbatim>\<open>revealCell\<close> calls that the loop of \<^verbatim>\<open>chordReveal\<close> makes, in
  call order: the loop of \<open>chordLoop\<close> with the results collected instead of merged.
\<close>

fun chordCalls :: "board \<Rightarrow> nat list \<Rightarrow> revealResult list" where
  "chordCalls b [] = []"
| "chordCalls b (adj # rest) =
     (if \<not> isRevealed (cellAt b adj) \<and> \<not> isFlagged (cellAt b adj) then
        (case revealCell b (row (cellAt b adj)) (col (cellAt b adj)) of
           (b', rr) \<Rightarrow> rr # chordCalls b' rest)
      else chordCalls b rest)"

text \<open>The cell at position \<open>j\<close> records its own grid position.\<close>

definition ownPosition :: "board \<Rightarrow> nat \<Rightarrow> bool" where
  "ownPosition b j = (getCell b (row (cellAt b j)) (col (cellAt b j)) = Some j)"

text \<open>
  The layout invariant of a board made by \<^verbatim>\<open>create\<close>: one cell per grid position, in
  row-major order, each cell recording its own position.
\<close>

definition gridBoard :: "board \<Rightarrow> bool" where
  "gridBoard b \<longleftrightarrow>
     length (cells b) = nat (rows b) * nat (cols b) \<and>
     (\<forall>i < length (cells b).
        index (cellAt b i) = int i \<and> row (cellAt b i) = int i div cols b \<and>
        col (cellAt b i) = int i mod cols b)"

text \<open>Two boards with the same grid, the same cell positions and the same mines.\<close>

definition sameLayout :: "board \<Rightarrow> board \<Rightarrow> bool" where
  "sameLayout b b' \<longleftrightarrow>
     rows b' = rows b \<and> cols b' = cols b \<and> length (cells b') = length (cells b) \<and>
     (\<forall>j. isMine (cellAt b' j) = isMine (cellAt b j) \<and> row (cellAt b' j) = row (cellAt b j) \<and>
          col (cellAt b' j) = col (cellAt b j) \<and> index (cellAt b' j) = index (cellAt b j))"

text \<open>
  The brute-force count of the mines around position \<open>(r, c)\<close>: among the nine
  positions of the 3 by 3 block centred there, those other than \<open>(r, c)\<close> itself that lie
  on the grid and hold a mine.
\<close>

definition mineAt :: "board \<Rightarrow> int \<Rightarrow> int \<Rightarrow> bool" where
  "mineAt b r c =
     (0 \<le> r \<and> r < rows b \<and> 0 \<le> c \<and> c < cols b \<and> isMine (cells b ! nat (r * cols b + c)))"

definition bruteForceCount :: "board \<Rightarrow> int \<Rightarrow> int \<Rightarrow> nat" where
  "bruteForceCount b r c =
     length (filter (\<lambda>(r', c'). (r', c') \<noteq> (r, c) \<and> mineAt b r' c')
               (List.product [r - 1, r, r + 1] [c - 1, c, c + 1]))"

subsection \<open>Example boards and sessions\<close>

text \<open>A random source that replays a finite list of draws and then gives zeros.\<close>

definition rngOfList :: "rat list \<Rightarrow> rng" where
  "rngOfList qs = (\<lambda>n. if n < length qs then qs ! n else 0)"

text \<open>A fresh 1 by 2 board, and the same board after the reveal of its first cell.\<close>

definition freshBoard :: board where
  "freshBoard = create 1 2 0 None"

definition clearedBoard :: board where
  "clearedBoard = fst (revealCell freshBoard 0 0)"

text \<open>
  A 1 by 5 board with one mine, first click on the middle cell, with a random source of
  zeros: the mine lands on the last cell. \<open>powerBoard\<close> is the same board with power-ups
  enabled and a spawn chance of 1, so the numbered cell next to the mine carries a shield;
  on \<open>flaggedMineBoard\<close> the mine is flagged.
\<close>

definition cfgAlways :: powerupConfig where
  "cfgAlways = \<lparr>enabled = True, spawnChance = 1, types = [(''shield'', 1)]\<rparr>"

definition mineBoard :: board where
  "mineBoard = fst (placeMines (create 1 5 1 None) 0 2 (rngOfList []))"

definition powerBoard :: board where
  "powerBoard = fst (placeMines (create 1 5 1 (Some cfgAlways)) 0 2 (rngOfList []))"

definition flaggedMineBoard :: board where
  "flaggedMineBoard = fst (toggleFlag mineBoard 0 4)"

text \<open>
  A 4 by 4 board with mines on cells 7 and 13, after the first click on \<open>(1, 1)\<close> has
  revealed the upper left 3 by 3 block. On \<open>chordBoard\<close> the player has also flagged the
  cells \<open>(2, 3)\<close> and \<open>(3, 3)\<close>, neither of which is a mine, so the revealed cell
  \<open>(2, 2)\<close>, which shows a 2, has two flagged neighbours.
\<close>

definition playBoard :: board where
  "playBoard =
     fst (revealCell
            (fst (placeMines (create 4 4 2 None) 1 1
                   (rngOfList [6 / 7, 5 / 6, 0, 3 / 4, 2 / 3, 1 / 2])))
            1 1)"

definition chordBoard :: board where
  "chordBoard = toggleAll playBoard [(2, 3), (3, 3)]"

text \<open>A session in play on \<open>playBoard\<close>, with and without an active shield.\<close>

definition shieldedSession :: session where
  "shieldedSession =
     \<lparr>board = playBoard, gameState = Playing, timerInterval = True, inventory = [],
      shieldActive = True\<rparr>"

definition bareSession :: session where
  "bareSession = shieldedSession\<lparr>shieldActive := False\<rparr>"

section \<open>Properties\<close>

subsection \<open>Creation\<close>

lemma create_no_cells:
  "rs \<le> 0 \<or> cs \<le> 0 \<Longrightarrow> cells (create rs cs mc pc) = []"
  by (auto simp: create_def)

text \<open>
  C1 (as the code has it): \<^verbatim>\<open>create\<close> never fails. With \<open>rows \<le> 0\<close> or \<open>cols \<le> 0\<close> it
  returns a board that records the arguments as given, has no cells and no mines placed.
\<close>

theorem create_nonpositive_returns_empty_board:
  "rs \<le> 0 \<or> cs \<le> 0 \<Longrightarrow>
     create rs cs mc pc =
       \<lparr>rows = rs, cols = cs, mineCount = mc, cells = [], minesPlaced = False,
        powerupConfig = pc\<rparr>"
  by (auto simp: create_def)

theorem create_nonpositive_returns_empty_board_witness:
  "((0::int) \<le> 0 \<or> (3::int) \<le> 0) \<and>
   create 0 3 10 None =
     \<lparr>rows = 0, cols = 3, mineCount = 10, cells = [], minesPlaced = False,
      powerupConfig = None\<rparr>"
  using create_nonpositive_returns_empty_board [of 0 3 10 None] by simp

text \<open>
  C1 (as the specification states it) fails: at \<open>rows = 0\<close> the specification asks for
  the error \<open>InvalidDimensions\<close>, and the code returns a board.
\<close>

theorem create_zero_rows_counterexample:
  "create_spec 0 3 10 None = Inl InvalidDimensions \<and>
   create_spec 0 3 10 None \<noteq> Inr (create 0 3 10 None)"
  by (simp add: create_spec_def)

subsection \<open>Flag toggling and no-ops\<close>

lemma getCell_outOfRange: "outOfRange b r c \<Longrightarrow> getCell b r c = None"
  by (simp add: getCell_def outOfRange_def)

lemma getCell_Some_less: "getCell b r c = Some i \<Longrightarrow> i < length (cells b)"
  by (auto simp: getCell_def split: if_splits)

lemma toggleCell_marks:
  "oneMark c \<Longrightarrow>
     (unmarked c \<longrightarrow> flagged (toggleCell c)) \<and> (flagged c \<longrightarrow> questioned (toggleCell c)) \<and>
     (questioned c \<longrightarrow> unmarked (toggleCell c))"
  by (auto simp: oneMark_def unmarked_def flagged_def questioned_def toggleCell_def)

lemma toggleCell_oneMark: "oneMark c \<Longrightarrow> oneMark (toggleCell c)"
  by (auto simp: oneMark_def unmarked_def flagged_def questioned_def toggleCell_def)

lemma oneMark_iff: "oneMark c \<longleftrightarrow> \<not> (isFlagged c \<and> isQuestion c)"
  by (auto simp: oneMark_def unmarked_def flagged_def questioned_def)

lemma toggleFlag_oneMark:
  "\<forall>x \<in> set (cells b). oneMark x \<Longrightarrow> \<forall>x \<in> set (cells (fst (toggleFlag b r c))). oneMark x"
proof -
  assume inv: "\<forall>x \<in> set (cells b). oneMark x"
  show ?thesis
  proof (cases "getCell b r c")
    case None
    then show ?thesis using inv by (simp add: toggleFlag_def)
  next
    case (Some i)
    then have "i < length (cells b)" by (rule getCell_Some_less)
    then have "oneMark (toggleCell (cellAt b i))"
      using inv by (simp add: cellAt_def toggleCell_oneMark)
    then show ?thesis
      using inv Some by (auto simp: toggleFlag_def dest!: set_update_subset_insert [THEN subsetD])
  qed
qed

lemma create_oneMark: "\<forall>x \<in> set (cells (create rs cs mc pc)). oneMark x"
  by (auto simp: create_def newCell_def oneMark_def unmarked_def flagged_def questioned_def)

lemma toggleAll_oneMark:
  "\<forall>x \<in> set (cells b). oneMark x \<Longrightarrow> \<forall>x \<in> set (cells (toggleAll b calls)). oneMark x"
proof (induction calls arbitrary: b)
  case Nil
  then show ?case by (simp add: toggleAll_def)
next
  case (Cons rc calls)
  obtain r c where rc: "rc = (r, c)" by (cases rc)
  have "\<forall>x \<in> set (cells (fst (toggleFlag b r c))). oneMark x"
    using Cons.prems by (rule toggleFlag_oneMark)
  from Cons.IH [OF this] show ?case by (simp add: toggleAll_def rc)
qed

text \<open>
  C8: on an unrevealed in-bounds cell that carries exactly one mark, \<^verbatim>\<open>toggleFlag\<close> reports
  a change, returns that cell, moves the mark one step along the cycle
  unmarked \<rightarrow> flagged \<rightarrow> questioned \<rightarrow> unmarked and leaves every other cell as it was;
  a sequence of \<^verbatim>\<open>toggleFlag\<close> calls keeps ``exactly one mark'' for every cell, so after
  any such sequence on a board made by \<^verbatim>\<open>create\<close> every cell carries exactly one mark; on
  an out-of-bounds or revealed cell \<^verbatim>\<open>toggleFlag\<close> reports no change and returns the board
  unchanged.
\<close>

theorem toggleFlag_cycle:
  "(getCell b r c = Some i \<and> \<not> isRevealed (cellAt b i) \<and> oneMark (cellAt b i) \<longrightarrow>
      changed (snd (toggleFlag b r c)) \<and> changedCell (snd (toggleFlag b r c)) = Some i \<and>
      (unmarked (cellAt b i) \<longrightarrow> flagged (cellAt (fst (toggleFlag b r c)) i)) \<and>
      (flagged (cellAt b i) \<longrightarrow> questioned (cellAt (fst (toggleFlag b r c)) i)) \<and>
      (questioned (cellAt b i) \<longrightarrow> unmarked (cellAt (fst (toggleFlag b r c)) i)) \<and>
      (\<forall>j. j \<noteq> i \<longrightarrow> cellAt (fst (toggleFlag b r c)) j = cellAt b j)) \<and>
   ((\<forall>x \<in> set (cells b). oneMark x) \<longrightarrow> (\<forall>x \<in> set (cells (toggleAll b calls)). oneMark x)) \<and>
   (\<forall>x \<in> set (cells (toggleAll (create rs cs mc pc) calls)). oneMark x) \<and>
   (outOfRange b r' c' \<or> (\<exists>k. getCell b r' c' = Some k \<and> isRevealed (cellAt b k)) \<longrightarrow>
      toggleFlag b r' c' = (b, \<lparr>changed = False, changedCell = None\<rparr>))"
proof (intro conjI impI)
  assume h: "getCell b r c = Some i \<and> \<not> isRevealed (cellAt b i) \<and> oneMark (cellAt b i)"
  then have len: "i < length (cells b)" by (auto dest: getCell_Some_less)
  have tf: "toggleFlag b r c =
      (b\<lparr>cells := (cells b)[i := toggleCell (cellAt b i)]\<rparr>, \<lparr>changed = True, changedCell = Some i\<rparr>)"
    using h by (simp add: toggleFlag_def)
  have at: "cellAt (fst (toggleFlag b r c)) i = toggleCell (cellAt b i)"
    using len by (simp add: tf cellAt_def)
  show "changed (snd (toggleFlag b r c))" by (simp add: tf)
  show "changedCell (snd (toggleFlag b r c)) = Some i" by (simp add: tf)
  show "flagged (cellAt (fst (toggleFlag b r c)) i)" if "unmarked (cellAt b i)"
    using that h toggleCell_marks [of "cellAt b i"] by (simp add: at)
  show "questioned (cellAt (fst (toggleFlag b r c)) i)" if "flagged (cellAt b i)"
    using that h toggleCell_marks [of "cellAt b i"] by (simp add: at)
  show "unmarked (cellAt (fst (toggleFlag b r c)) i)" if "questioned (cellAt b i)"
    using that h toggleCell_marks [of "cellAt b i"] by (simp add: at)
  show "\<forall>j. j \<noteq> i \<longrightarrow> cellAt (fst (toggleFlag b r c)) j = cellAt b j"
    by (simp add: tf cellAt_def)
next
  assume "\<forall>x \<in> set (cells b). oneMark x"
  then show "\<forall>x \<in> set (cells (toggleAll b calls)). oneMark x" by (rule toggleAll_oneMark)
next
  show "\<forall>x \<in> set (cells (toggleAll (create rs cs mc pc) calls)). oneMark x"
    using create_oneMark by (rule toggleAll_oneMark)
next
  assume "outOfRange b r' c' \<or> (\<exists>k. getCell b r' c' = Some k \<and> isRevealed (cellAt b k))"
  then show "toggleFlag b r' c' = (b, \<lparr>changed = False, changedCell = None\<rparr>)"
    by (auto simp: toggleFlag_def getCell_outOfRange)
qed


theorem toggleFlag_cycle_witness:
  "getCell freshBoard 0 0 = Some 0 \<and> \<not> isRevealed (cellAt freshBoard 0) \<and>
   oneMark (cellAt freshBoard 0) \<and> unmarked (cellAt freshBoard 0) \<and>
   list_all oneMark (cells freshBoard) \<and>
   outOfRange freshBoard 7 (- 1) \<and>
   changed (snd (toggleFlag freshBoard 0 0)) \<and>
   flagged (cellAt (fst (toggleFlag freshBoard 0 0)) 0) \<and>
   list_all oneMark (cells (toggleAll freshBoard [(0, 0), (0, 1), (0, 0)])) \<and>
   toggleFlag freshBoard 7 (- 1) = (freshBoard, \<lparr>changed = False, changedCell = None\<rparr>)"
proof -
  have h1: "getCell freshBoard 0 0 = Some 0 \<and> \<not> isRevealed (cellAt freshBoard 0) \<and>
      oneMark (cellAt freshBoard 0)"
    by code_simp
  have h2: "unmarked (cellAt freshBoard 0)" by code_simp
  have h3: "list_all oneMark (cells freshBoard)" by code_simp
  have h4: "outOfRange freshBoard 7 (- 1)" by code_simp
  show ?thesis
    using h1 h2 h3 h4
      toggleFlag_cycle [of freshBoard 0 0 0 "[(0, 0), (0, 1), (0, 0)]" 1 2 0 None 7 "- 1"]
    unfolding list_all_iff by blast
qed

text \<open>
  The same theorem at a flagged cell (after one toggle) and at a questioned cell (after
  two): the next toggle gives a questioned cell and an unmarked cell.
\<close>

lemma toggle_three_times_example:
  "flagged (cellAt (toggleAll freshBoard [(0, 0)]) 0) \<and>
   questioned (cellAt (toggleAll freshBoard [(0, 0), (0, 0)]) 0) \<and>
   unmarked (cellAt (toggleAll freshBoard [(0, 0), (0, 0), (0, 0)]) 0)"
  by code_simp

text \<open>
  C9: \<^verbatim>\<open>revealCell\<close>, \<^verbatim>\<open>chordReveal\<close> and \<^verbatim>\<open>toggleFlag\<close> have no failing path (the
  functions above are total and none of their branches is an error). On coordinates
  outside the grid all three return the empty result and the board as it was; so does
  \<^verbatim>\<open>revealCell\<close> on a revealed or flagged cell, \<^verbatim>\<open>chordReveal\<close> on a cell that is
  unrevealed, has no adjacent mine or whose flagged-neighbour count differs from its
  number, and \<^verbatim>\<open>toggleFlag\<close> on a revealed cell.
\<close>

theorem noop_calls_leave_board_unchanged:
  "(outOfRange b r c \<longrightarrow>
      revealCell b r c = (b, emptyResult) \<and> chordReveal b r c = (b, emptyResult) \<and>
      toggleFlag b r c = (b, \<lparr>changed = False, changedCell = None\<rparr>)) \<and>
   (getCell b r1 c1 = Some i1 \<and> (isRevealed (cellAt b i1) \<or> isFlagged (cellAt b i1)) \<longrightarrow>
      revealCell b r1 c1 = (b, emptyResult)) \<and>
   (getCell b r2 c2 = Some i2 \<and>
      (\<not> isRevealed (cellAt b i2) \<or> adjacentMines (cellAt b i2) = 0 \<or>
       flaggedCount b r2 c2 \<noteq> adjacentMines (cellAt b i2)) \<longrightarrow>
      chordReveal b r2 c2 = (b, emptyResult)) \<and>
   (getCell b r3 c3 = Some i3 \<and> isRevealed (cellAt b i3) \<longrightarrow>
      toggleFlag b r3 c3 = (b, \<lparr>changed = False, changedCell = None\<rparr>))"
  by (auto simp: revealCell_def chordReveal_def toggleFlag_def getCell_outOfRange)

theorem noop_calls_leave_board_unchanged_witness:
  "outOfRange clearedBoard (- 1) 5 \<and>
   getCell clearedBoard 0 1 = Some 1 \<and> isRevealed (cellAt clearedBoard 1) \<and>
   adjacentMines (cellAt clearedBoard 1) = 0 \<and>
   revealCell clearedBoard (- 1) 5 = (clearedBoard, emptyResult) \<and>
   chordReveal clearedBoard (- 1) 5 = (clearedBoard, emptyResult) \<and>
   toggleFlag clearedBoard (- 1) 5 = (clearedBoard, \<lparr>changed = False, changedCell = None\<rparr>) \<and>
   revealCell clearedBoard 0 1 = (clearedBoard, emptyResult) \<and>
   chordReveal clearedBoard 0 1 = (clearedBoard, emptyResult) \<and>
   toggleFlag clearedBoard 0 1 = (clearedBoard, \<lparr>changed = False, changedCell = None\<rparr>)"
proof -
  have h1: "outOfRange clearedBoard (- 1) 5" by code_simp
  have h2: "getCell clearedBoard 0 1 = Some 1 \<and> isRevealed (cellAt clearedBoard 1) \<and>
      adjacentMines (cellAt clearedBoard 1) = 0"
    by code_simp
  show ?thesis
    using h1 h2
      noop_calls_leave_board_unchanged [of clearedBoard "- 1" 5 0 1 1 0 1 1 0 1 1]
    by blast
qed


subsection \<open>The reveal loop\<close>

lemma length_setRevealed [simp]: "length (cells (setRevealed b i)) = length (cells b)"
  by (simp add: setRevealed_def)

lemma rows_setRevealed [simp]: "rows (setRevealed b i) = rows b"
  and cols_setRevealed [simp]: "cols (setRevealed b i) = cols b"
  by (simp_all add: setRevealed_def)

lemma cellAt_setRevealed:
  "cellAt (setRevealed b i) j =
     (if j = i \<and> i < length (cells b) then (cellAt b i)\<lparr>isRevealed := True\<rparr> else cellAt b j)"
  by (cases "j = i") (simp_all add: setRevealed_def cellAt_def list_update_beyond)

lemma fields_setRevealed [simp]:
  "isMine (cellAt (setRevealed b i) j) = isMine (cellAt b j)"
  "isFlagged (cellAt (setRevealed b i) j) = isFlagged (cellAt b j)"
  "powerup (cellAt (setRevealed b i) j) = powerup (cellAt b j)"
  "adjacentMines (cellAt (setRevealed b i) j) = adjacentMines (cellAt b j)"
  "row (cellAt (setRevealed b i) j) = row (cellAt b j)"
  "col (cellAt (setRevealed b i) j) = col (cellAt b j)"
  "hasPowerup (cellAt (setRevealed b i) j) = hasPowerup (cellAt b j)"
  by (simp_all add: cellAt_setRevealed hasPowerup_def)

lemma isRevealed_setRevealed:
  "isRevealed (cellAt (setRevealed b i) j) =
     ((j = i \<and> i < length (cells b)) \<or> isRevealed (cellAt b j))"
  by (auto simp: cellAt_setRevealed)

lemma getCell_setRevealed [simp]: "getCell (setRevealed b i) = getCell b"
  by (simp add: getCell_def fun_eq_iff)

lemma getAdjacentCells_setRevealed [simp]:
  "getAdjacentCells (setRevealed b i) = getAdjacentCells b"
  by (simp add: getAdjacentCells_def fun_eq_iff)

lemma getAdjacentCells_less: "j \<in> set (getAdjacentCells b r c) \<Longrightarrow> j < length (cells b)"
  by (auto simp: getAdjacentCells_def map_filter_def dest: getCell_Some_less)

lemma revealLoop_revealed_prefix:
  "\<exists>new. revealed (snd (revealLoop b wl acc)) = acc @ new"
  by (induction b wl acc rule: revealLoop.induct) auto

lemma revealed_revealLoop:
  "revealed (snd (revealLoop b wl acc)) = acc @ newlyRevealed b wl acc"
  using revealLoop_revealed_prefix [of b wl acc] by (auto simp: newlyRevealed_def)

lemma newlyRevealed_Nil [simp]: "newlyRevealed b [] acc = []"
  by (simp add: newlyRevealed_def)

lemma newlyRevealed_Cons:
  "newlyRevealed b (cur # rest) acc =
     (if length (cells b) \<le> cur then newlyRevealed b rest acc
      else if isRevealed (cellAt b cur) \<or> isFlagged (cellAt b cur) then newlyRevealed b rest acc
      else if isMine (cellAt b cur) then [cur]
      else if hasPowerup (cellAt b cur) then [cur]
      else if adjacentMines (cellAt b cur) = 0 then
        cur # newlyRevealed (setRevealed b cur)
                (rev (cascadeNeighbours (setRevealed b cur) cur) @ rest) (acc @ [cur])
      else cur # newlyRevealed (setRevealed b cur) rest (acc @ [cur]))"
proof -
  have step: "drop (length acc) (revealed (snd (revealLoop b' wl' (acc @ [cur])))) =
      cur # newlyRevealed b' wl' (acc @ [cur])" for b' wl'
    by (simp add: revealed_revealLoop)
  show ?thesis
    by (simp add: newlyRevealed_def [of b "cur # rest"] step)
       (simp add: newlyRevealed_def)
qed

lemma newlyRevealed_unrevealed:
  "j \<in> set (newlyRevealed b wl acc) \<Longrightarrow>
     j < length (cells b) \<and> \<not> isRevealed (cellAt b j) \<and> \<not> isFlagged (cellAt b j)"
  by (induction b wl acc rule: revealLoop.induct)
     (auto simp: newlyRevealed_Cons isRevealed_setRevealed split: if_splits)

lemma newlyRevealed_distinct: "distinct (newlyRevealed b wl acc)"
proof (induction b wl acc rule: revealLoop.induct)
  case (1 b acc)
  then show ?case by simp
next
  case (2 b cur rest acc)
  have notin: "cur \<notin> set (newlyRevealed (setRevealed b cur) wl' acc')"
    if "cur < length (cells b)" for wl' acc'
    using newlyRevealed_unrevealed [of cur "setRevealed b cur" wl' acc'] that
    by (auto simp: isRevealed_setRevealed)
  show ?case
    using 2 by (auto simp: newlyRevealed_Cons notin)
qed

lemma fst_revealLoop:
  "fst (revealLoop b wl acc) = foldl setRevealed b (newlyRevealed b wl acc)"
  by (induction b wl acc rule: revealLoop.induct) (auto simp: newlyRevealed_Cons)

lemma newlyRevealed_mine_in_worklist:
  "j \<in> set (newlyRevealed b wl acc) \<Longrightarrow> isMine (cellAt b j) \<Longrightarrow> j \<in> set wl"
  by (induction b wl acc rule: revealLoop.induct)
     (auto simp: newlyRevealed_Cons cascadeNeighbours_def split: if_splits)

lemma newlyRevealed_butlast:
  "j \<in> set (butlast (newlyRevealed b wl acc)) \<Longrightarrow>
     \<not> isMine (cellAt b j) \<and> \<not> hasPowerup (cellAt b j)"
  by (induction b wl acc rule: revealLoop.induct)
     (auto simp: newlyRevealed_Cons split: if_splits)

lemma revealLoop_flags:
  "hitMine (snd (revealLoop b wl acc)) =
     (newlyRevealed b wl acc \<noteq> [] \<and> isMine (cellAt b (last (newlyRevealed b wl acc))))"
  "explodedCell (snd (revealLoop b wl acc)) =
     (if hitMine (snd (revealLoop b wl acc)) then Some (last (newlyRevealed b wl acc)) else None)"
  "powerupFound (snd (revealLoop b wl acc)) =
     (if newlyRevealed b wl acc \<noteq> [] \<and> \<not> isMine (cellAt b (last (newlyRevealed b wl acc))) \<and>
         hasPowerup (cellAt b (last (newlyRevealed b wl acc)))
      then powerup (cellAt b (last (newlyRevealed b wl acc))) else None)"
  by (induction b wl acc rule: revealLoop.induct)
     (auto simp: newlyRevealed_Cons)

lemma revealCell_unfold:
  "getCell b r c = Some i \<Longrightarrow> \<not> isRevealed (cellAt b i) \<Longrightarrow> \<not> isFlagged (cellAt b i) \<Longrightarrow>
     revealCell b r c = revealLoop b [i] []"
  by (simp add: revealCell_def)

lemma revealCell_cases:
  "revealCell b r c = (b, emptyResult) \<or>
   (\<exists>i. getCell b r c = Some i \<and> \<not> isRevealed (cellAt b i) \<and> \<not> isFlagged (cellAt b i) \<and>
        revealCell b r c = revealLoop b [i] [])"
  by (cases "getCell b r c") (auto simp: revealCell_def)

lemma revealed_revealLoop_Nil: "revealed (snd (revealLoop b wl [])) = newlyRevealed b wl []"
  by (simp add: revealed_revealLoop)

text \<open>
  C5: when the loop pops an unrevealed, unflagged mine it returns at once, whatever is
  still queued, with that cell appended to \<open>revealed\<close>, \<open>hitMine\<close> set and the cell as
  \<open>explodedCell\<close>; when it pops an unrevealed, unflagged cell with a power-up it returns at
  once with that power-up. For a whole call of \<^verbatim>\<open>revealCell\<close>: a mine or power-up cell can
  only be the last cell of \<open>revealed\<close>; the flags of the result are those of that last
  cell; and the board returned is the given board with exactly the cells of \<open>revealed\<close>
  marked as revealed.
\<close>

theorem reveal_stops_at_mine_or_powerup:
  "(cur < length (cells b) \<and> \<not> isRevealed (cellAt b cur) \<and> \<not> isFlagged (cellAt b cur) \<and>
    isMine (cellAt b cur) \<longrightarrow>
      revealLoop b (cur # rest) acc =
        (setRevealed b cur,
         \<lparr>revealed = acc @ [cur], hitMine = True, explodedCell = Some cur,
          powerupFound = None\<rparr>)) \<and>
   (pc < length (cells b) \<and> \<not> isRevealed (cellAt b pc) \<and> \<not> isFlagged (cellAt b pc) \<and>
    \<not> isMine (cellAt b pc) \<and> hasPowerup (cellAt b pc) \<longrightarrow>
      revealLoop b (pc # prest) pacc =
        (setRevealed b pc,
         \<lparr>revealed = pacc @ [pc], hitMine = False, explodedCell = None,
          powerupFound = powerup (cellAt b pc)\<rparr>)) \<and>
   (\<forall>j \<in> set (butlast (revealed (snd (revealCell b r c)))).
      \<not> isMine (cellAt b j) \<and> \<not> hasPowerup (cellAt b j)) \<and>
   hitMine (snd (revealCell b r c)) =
     (revealed (snd (revealCell b r c)) \<noteq> [] \<and>
      isMine (cellAt b (last (revealed (snd (revealCell b r c)))))) \<and>
   explodedCell (snd (revealCell b r c)) =
     (if hitMine (snd (revealCell b r c))
      then Some (last (revealed (snd (revealCell b r c)))) else None) \<and>
   powerupFound (snd (revealCell b r c)) =
     (if revealed (snd (revealCell b r c)) \<noteq> [] \<and>
         \<not> isMine (cellAt b (last (revealed (snd (revealCell b r c))))) \<and>
         hasPowerup (cellAt b (last (revealed (snd (revealCell b r c)))))
      then powerup (cellAt b (last (revealed (snd (revealCell b r c))))) else None) \<and>
   fst (revealCell b r c) = foldl setRevealed b (revealed (snd (revealCell b r c)))"
proof -
  have call: "(\<forall>j \<in> set (butlast (revealed (snd (revealCell b r c)))).
      \<not> isMine (cellAt b j) \<and> \<not> hasPowerup (cellAt b j)) \<and>
   hitMine (snd (revealCell b r c)) =
     (revealed (snd (revealCell b r c)) \<noteq> [] \<and>
      isMine (cellAt b (last (revealed (snd (revealCell b r c)))))) \<and>
   explodedCell (snd (revealCell b r c)) =
     (if hitMine (snd (revealCell b r c))
      then Some (last (revealed (snd (revealCell b r c)))) else None) \<and>
   powerupFound (snd (revealCell b r c)) =
     (if revealed (snd (revealCell b r c)) \<noteq> [] \<and>
         \<not> isMine (cellAt b (last (revealed (snd (revealCell b r c))))) \<and>
         hasPowerup (cellAt b (last (revealed (snd (revealCell b r c)))))
      then powerup (cellAt b (last (revealed (snd (revealCell b r c))))) else None) \<and>
   fst (revealCell b r c) = foldl setRevealed b (revealed (snd (revealCell b r c)))"
  proof -
    consider (noop) "revealCell b r c = (b, emptyResult)"
      | (loop) i where "revealCell b r c = revealLoop b [i] []"
      using revealCell_cases [of b r c] by blast
    then show ?thesis
    proof cases
      case noop
      then show ?thesis by (simp add: emptyResult_def)
    next
      case (loop i)
      show ?thesis
        unfolding loop revealed_revealLoop_Nil
        using newlyRevealed_butlast [of _ b "[i]" "[]"]
        by (simp add: revealLoop_flags [of b "[i]" "[]"] fst_revealLoop del: revealLoop.simps)
    qed
  qed
  show ?thesis
    using call by simp
qed

theorem reveal_stops_at_mine_or_powerup_witness:
  "4 < length (cells powerBoard) \<and> \<not> isRevealed (cellAt powerBoard 4) \<and>
   \<not> isFlagged (cellAt powerBoard 4) \<and> isMine (cellAt powerBoard 4) \<and>
   3 < length (cells powerBoard) \<and> \<not> isRevealed (cellAt powerBoard 3) \<and>
   \<not> isFlagged (cellAt powerBoard 3) \<and> \<not> isMine (cellAt powerBoard 3) \<and>
   hasPowerup (cellAt powerBoard 3) \<and>
   revealLoop powerBoard [4, 0] [] =
     (setRevealed powerBoard 4,
      \<lparr>revealed = [4], hitMine = True, explodedCell = Some 4, powerupFound = None\<rparr>) \<and>
   revealLoop powerBoard [3, 1] [2] =
     (setRevealed powerBoard 3,
      \<lparr>revealed = [2, 3], hitMine = False, explodedCell = None,
       powerupFound = Some ''shield''\<rparr>) \<and>
   revealed (snd (revealCell powerBoard 0 2)) = [2, 3] \<and>
   list_all (\<lambda>j. \<not> isMine (cellAt powerBoard j) \<and> \<not> hasPowerup (cellAt powerBoard j))
     (butlast (revealed (snd (revealCell powerBoard 0 2))))"
proof -
  have h1: "4 < length (cells powerBoard) \<and> \<not> isRevealed (cellAt powerBoard 4) \<and>
      \<not> isFlagged (cellAt powerBoard 4) \<and> isMine (cellAt powerBoard 4)"
    by code_simp
  have h2: "3 < length (cells powerBoard) \<and> \<not> isRevealed (cellAt powerBoard 3) \<and>
      \<not> isFlagged (cellAt powerBoard 3) \<and> \<not> isMine (cellAt powerBoard 3) \<and>
      hasPowerup (cellAt powerBoard 3)"
    by code_simp
  have h3: "powerup (cellAt powerBoard 3) = Some ''shield''" by code_simp
  have h4: "revealed (snd (revealCell powerBoard 0 2)) = [2, 3]" by code_simp
  show ?thesis
    using h1 h2 h3 h4
      reveal_stops_at_mine_or_powerup [of 4 powerBoard "[0]" "[]" 3 "[1]" "[2]" 0 2]
    unfolding list_all_iff by (simp del: revealLoop.simps)
qed

lemma isRevealed_foldl_setRevealed:
  "isRevealed (cellAt (foldl setRevealed b xs) j) =
     (isRevealed (cellAt b j) \<or> (j \<in> set xs \<and> j < length (cells b)))"
  by (induction xs arbitrary: b) (auto simp: isRevealed_setRevealed)

lemma newlyRevealed_target_mine:
  "i < length (cells b) \<Longrightarrow> \<not> isRevealed (cellAt b i) \<Longrightarrow> \<not> isFlagged (cellAt b i) \<Longrightarrow>
     isMine (cellAt b i) \<Longrightarrow> newlyRevealed b [i] [] = [i]"
  by (simp add: newlyRevealed_Cons)

text \<open>
  C10 (as the code has it): for an in-bounds target, \<open>hitMine\<close> is true exactly when the
  target is a mine that is neither revealed nor flagged; the only mine that can appear in
  \<open>revealed\<close>, and the only mine that the call can turn from unrevealed to revealed, is
  the target.
\<close>

theorem revealCell_mine_only_target:
  "getCell b r c = Some i \<longrightarrow>
     (hitMine (snd (revealCell b r c)) \<longleftrightarrow>
        isMine (cellAt b i) \<and> \<not> isRevealed (cellAt b i) \<and> \<not> isFlagged (cellAt b i)) \<and>
     (\<forall>j \<in> set (revealed (snd (revealCell b r c))). isMine (cellAt b j) \<longrightarrow> j = i) \<and>
     (\<forall>j. isMine (cellAt b j) \<and> \<not> isRevealed (cellAt b j) \<and>
          isRevealed (cellAt (fst (revealCell b r c)) j) \<longrightarrow> j = i)"
proof
  assume g: "getCell b r c = Some i"
  then have len: "i < length (cells b)" by (rule getCell_Some_less)
  show "(hitMine (snd (revealCell b r c)) \<longleftrightarrow>
        isMine (cellAt b i) \<and> \<not> isRevealed (cellAt b i) \<and> \<not> isFlagged (cellAt b i)) \<and>
     (\<forall>j \<in> set (revealed (snd (revealCell b r c))). isMine (cellAt b j) \<longrightarrow> j = i) \<and>
     (\<forall>j. isMine (cellAt b j) \<and> \<not> isRevealed (cellAt b j) \<and>
          isRevealed (cellAt (fst (revealCell b r c)) j) \<longrightarrow> j = i)"
  proof (cases "isRevealed (cellAt b i) \<or> isFlagged (cellAt b i)")
    case True
    then have "revealCell b r c = (b, emptyResult)" using g by (simp add: revealCell_def)
    then show ?thesis using True by (auto simp: emptyResult_def)
  next
    case False
    let ?new = "newlyRevealed b [i] []"
    have rc: "revealCell b r c = revealLoop b [i] []"
      using g False by (simp add: revealCell_def)
    have mines: "j = i" if "j \<in> set ?new" "isMine (cellAt b j)" for j
      using newlyRevealed_mine_in_worklist [OF that] by simp
    have hit: "hitMine (snd (revealLoop b [i] [])) \<longleftrightarrow> isMine (cellAt b i)"
    proof (cases "isMine (cellAt b i)")
      case True
      with len False show ?thesis
        by (simp add: revealLoop_flags(1) newlyRevealed_target_mine del: revealLoop.simps)
    next
      case nomine: False
      have "\<not> (?new \<noteq> [] \<and> isMine (cellAt b (last ?new)))"
        using mines [of "last ?new"] nomine by auto
      with nomine show ?thesis by (simp add: revealLoop_flags(1) del: revealLoop.simps)
    qed
    show ?thesis
      unfolding rc
      using hit False mines
      by (auto simp: revealed_revealLoop_Nil fst_revealLoop isRevealed_foldl_setRevealed
                simp del: revealLoop.simps)
  qed
qed

theorem revealCell_mine_only_target_witness:
  "getCell mineBoard 0 4 = Some 4 \<and> isMine (cellAt mineBoard 4) \<and>
   \<not> isRevealed (cellAt mineBoard 4) \<and> \<not> isFlagged (cellAt mineBoard 4) \<and>
   hitMine (snd (revealCell mineBoard 0 4)) \<and>
   filter (\<lambda>j. isMine (cellAt mineBoard j)) (revealed (snd (revealCell mineBoard 0 4))) = [4]"
proof -
  have h1: "getCell mineBoard 0 4 = Some 4" by code_simp
  have h2: "isMine (cellAt mineBoard 4) \<and> \<not> isRevealed (cellAt mineBoard 4) \<and>
      \<not> isFlagged (cellAt mineBoard 4)"
    by code_simp
  have v: "filter (\<lambda>j. isMine (cellAt mineBoard j)) (revealed (snd (revealCell mineBoard 0 4)))
      = [4]"
    by code_simp
  show ?thesis
    using h1 h2 v revealCell_mine_only_target [of mineBoard 0 4 4] by blast
qed

text \<open>
  C10 (as stated) fails on a flagged mine: the target is in bounds and is a mine, and
  \<open>hitMine\<close> is false.
\<close>

theorem flagged_mine_target_counterexample:
  "getCell flaggedMineBoard 0 4 = Some 4 \<and>
   \<not> (hitMine (snd (revealCell flaggedMineBoard 0 4)) \<longleftrightarrow> isMine (cellAt flaggedMineBoard 4))"
  by code_simp

lemma revealCell_hitMine:
  assumes "hitMine (snd (revealCell b r c))"
  shows "\<exists>i. getCell b r c = Some i \<and> i < length (cells b) \<and> \<not> isRevealed (cellAt b i) \<and>
           \<not> isFlagged (cellAt b i) \<and> isMine (cellAt b i) \<and>
           revealCell b r c =
             (setRevealed b i,
              \<lparr>revealed = [i], hitMine = True, explodedCell = Some i, powerupFound = None\<rparr>)"
proof -
  from revealCell_cases [of b r c] assms obtain i where
    i: "getCell b r c = Some i" "\<not> isRevealed (cellAt b i)" "\<not> isFlagged (cellAt b i)"
      "revealCell b r c = revealLoop b [i] []"
    by (auto simp: emptyResult_def)
  have len: "i < length (cells b)" using i(1) by (rule getCell_Some_less)
  let ?new = "newlyRevealed b [i] []"
  have "?new \<noteq> []" "isMine (cellAt b (last ?new))"
    using assms unfolding i(4) revealLoop_flags(1) by simp_all
  then have "last ?new \<in> set ?new" by simp
  with \<open>isMine (cellAt b (last ?new))\<close> have "last ?new = i"
    using newlyRevealed_mine_in_worklist [of "last ?new" b "[i]" "[]"] by simp
  with \<open>isMine (cellAt b (last ?new))\<close> have "isMine (cellAt b i)" by simp
  with i len show ?thesis by simp
qed

subsection \<open>The shield\<close>

text \<open>
  C7: in a session that is Playing (mines placed), when the reveal at \<open>(r, c)\<close> hits a
  mine, the result names the exploded cell, and \<^verbatim>\<open>handleReveal\<close> does the following. With
  the shield active: the shield is consumed, the exploded cell ends up not revealed and
  flagged, and the session stays Playing. With no shield: the session becomes Lost.
\<close>

theorem shield_negates_mine_hit:
  "gameState s = Playing \<and> minesPlaced (board s) \<and>
   hitMine (snd (revealCell (board s) r c)) \<longrightarrow>
     (\<exists>e. explodedCell (snd (revealCell (board s) r c)) = Some e \<and>
        (shieldActive s \<longrightarrow>
           gameState (fst (handleReveal s r c now g)) = Playing \<and>
           \<not> shieldActive (fst (handleReveal s r c now g)) \<and>
           \<not> isRevealed (cellAt (board (fst (handleReveal s r c now g))) e) \<and>
           isFlagged (cellAt (board (fst (handleReveal s r c now g))) e)) \<and>
        (\<not> shieldActive s \<longrightarrow> gameState (fst (handleReveal s r c now g)) = Lost))"
proof
  assume h: "gameState s = Playing \<and> minesPlaced (board s) \<and>
      hitMine (snd (revealCell (board s) r c))"
  then obtain i where i: "getCell (board s) r c = Some i" "i < length (cells (board s))"
      "\<not> isRevealed (cellAt (board s) i)" "\<not> isFlagged (cellAt (board s) i)"
      "revealCell (board s) r c =
         (setRevealed (board s) i,
          \<lparr>revealed = [i], hitMine = True, explodedCell = Some i, powerupFound = None\<rparr>)"
    using revealCell_hitMine [of "board s" r c] by blast
  have hr: "handleReveal s r c now g =
      afterReveal (s\<lparr>board := setRevealed (board s) i\<rparr>)
        \<lparr>revealed = [i], hitMine = True, explodedCell = Some i, powerupFound = None\<rparr> now g"
    using h i by (simp add: handleReveal_def firstClick_def)
  have shield: "gameState (fst (handleReveal s r c now g)) = Playing \<and>
           \<not> shieldActive (fst (handleReveal s r c now g)) \<and>
           \<not> isRevealed (cellAt (board (fst (handleReveal s r c now g))) i) \<and>
           isFlagged (cellAt (board (fst (handleReveal s r c now g))) i)"
    if "shieldActive s"
    using that h i(2)
    by (simp add: hr afterReveal_def consumeShield_def shieldCell_def cellAt_def)
  have bare: "gameState (fst (handleReveal s r c now g)) = Lost" if "\<not> shieldActive s"
    using that by (simp add: hr afterReveal_def consumeShield_def gameOver_def)
  show "\<exists>e. explodedCell (snd (revealCell (board s) r c)) = Some e \<and>
        (shieldActive s \<longrightarrow>
           gameState (fst (handleReveal s r c now g)) = Playing \<and>
           \<not> shieldActive (fst (handleReveal s r c now g)) \<and>
           \<not> isRevealed (cellAt (board (fst (handleReveal s r c now g))) e) \<and>
           isFlagged (cellAt (board (fst (handleReveal s r c now g))) e)) \<and>
        (\<not> shieldActive s \<longrightarrow> gameState (fst (handleReveal s r c now g)) = Lost)"
    using shield bare by (auto simp: i(5))
qed

theorem shield_negates_mine_hit_witness:
  "gameState shieldedSession = Playing \<and> minesPlaced (board shieldedSession) \<and>
   hitMine (snd (revealCell (board shieldedSession) 1 3)) \<and> shieldActive shieldedSession \<and>
   explodedCell (snd (revealCell (board shieldedSession) 1 3)) = Some 7 \<and>
   gameState (fst (handleReveal shieldedSession 1 3 0 (rngOfList []))) = Playing \<and>
   \<not> shieldActive (fst (handleReveal shieldedSession 1 3 0 (rngOfList []))) \<and>
   \<not> isRevealed (cellAt (board (fst (handleReveal shieldedSession 1 3 0 (rngOfList [])))) 7) \<and>
   isFlagged (cellAt (board (fst (handleReveal shieldedSession 1 3 0 (rngOfList [])))) 7) \<and>
   gameState bareSession = Playing \<and> minesPlaced (board bareSession) \<and>
   hitMine (snd (revealCell (board bareSession) 1 3)) \<and> \<not> shieldActive bareSession \<and>
   gameState (fst (handleReveal bareSession 1 3 0 (rngOfList []))) = Lost"
proof -
  have h1: "gameState shieldedSession = Playing \<and> minesPlaced (board shieldedSession) \<and>
      hitMine (snd (revealCell (board shieldedSession) 1 3))"
    by code_simp
  have h2: "shieldActive shieldedSession" by code_simp
  have h3: "explodedCell (snd (revealCell (board shieldedSession) 1 3)) = Some 7" by code_simp
  have h4: "gameState bareSession = Playing \<and> minesPlaced (board bareSession) \<and>
      hitMine (snd (revealCell (board bareSession) 1 3))"
    by code_simp
  have h5: "\<not> shieldActive bareSession" by code_simp
  show ?thesis
    using h1 h2 h3 h4 h5
      shield_negates_mine_hit [of shieldedSession 1 3 0 "rngOfList []"]
      shield_negates_mine_hit [of bareSession 1 3 0 "rngOfList []"]
    by auto
qed

subsection \<open>The grid of a created board\<close>

lemma concat_rows_length:
  "length (concat (map (\<lambda>r. map (f r) [0..<m]) [0..<n])) = n * m"
  by (induction n) simp_all

lemma concat_rows_nth:
  "i < n * m \<Longrightarrow> concat (map (\<lambda>r. map (f r) [0..<m]) [0..<n]) ! i = f (i div m) (i mod m)"
proof (induction n)
  case 0
  then show ?case by simp
next
  case (Suc n)
  show ?case
  proof (cases "i < n * m")
    case True
    with Suc.IH show ?thesis by (simp add: nth_append concat_rows_length)
  next
    case False
    with Suc.prems have m: "0 < m" and lo: "n * m \<le> i" and hi: "i - n * m < m" by auto
    have d: "i div m = n"
    proof (rule div_nat_eqI)
      show "m * n \<le> i" using lo by (simp add: mult.commute)
      show "i < m * Suc n" using hi lo by (simp add: mult.commute)
    qed
    have r: "i mod m = i - n * m"
      using div_mult_mod_eq [of i m] d by simp
    show ?thesis using False hi by (simp add: nth_append concat_rows_length d r)
  qed
qed

lemma length_create: "length (cells (create rs cs mc pc)) = nat rs * nat cs"
  by (simp add: create_def concat_rows_length)

lemma nth_create:
  "i < nat rs * nat cs \<Longrightarrow>
     cellAt (create rs cs mc pc) i = newCell (int (i div nat cs)) (int (i mod nat cs)) cs"
  by (simp add: create_def cellAt_def concat_rows_nth)

lemma create_fields [simp]:
  "rows (create rs cs mc pc) = rs" "cols (create rs cs mc pc) = cs"
  "mineCount (create rs cs mc pc) = mc" "minesPlaced (create rs cs mc pc) = False"
  "powerupConfig (create rs cs mc pc) = pc"
  by (simp_all add: create_def)

lemma gridBoard_create: "gridBoard (create rs cs mc pc)"
proof -
  have "index (cellAt (create rs cs mc pc) i) = int i \<and>
        row (cellAt (create rs cs mc pc) i) = int i div cs \<and>
        col (cellAt (create rs cs mc pc) i) = int i mod cs"
    if i: "i < nat rs * nat cs" for i
  proof -
    have pos: "0 < cs" using i by (cases "0 < cs") auto
    then have cs: "cs = int (nat cs)" by simp
    have d: "int (i div nat cs) = int i div cs" by (subst (2) cs) (simp only: zdiv_int)
    have m: "int (i mod nat cs) = int i mod cs" by (subst (2) cs) (simp only: zmod_int)
    show ?thesis
      by (simp add: nth_create [OF i] newCell_def d m)
  qed
  then show ?thesis by (simp add: gridBoard_def length_create)
qed

lemma create_no_mines: "i < length (cells (create rs cs mc pc)) \<Longrightarrow> \<not> isMine (cellAt (create rs cs mc pc) i)"
  by (simp add: length_create nth_create newCell_def)

lemma inbounds_index_less:
  assumes "0 \<le> r" "r < rs" "0 \<le> c" "c < cs"
  shows "nat (r * cs + c) < nat rs * nat cs"
proof -
  have "r * cs + c < (r + 1) * cs" using assms by (simp add: algebra_simps)
  also have "(r + 1) * cs \<le> rs * cs" using assms by (intro mult_right_mono) auto
  finally have "r * cs + c < rs * cs" .
  moreover have "0 \<le> r * cs + c" using assms by simp
  moreover have "nat rs * nat cs = nat (rs * cs)" using assms by (simp add: nat_mult_distrib)
  ultimately show ?thesis by simp
qed

lemma getCell_gridBoard:
  assumes "gridBoard b" "0 \<le> r" "r < rows b" "0 \<le> c" "c < cols b"
  shows "getCell b r c = Some (nat (r * cols b + c))"
  using assms inbounds_index_less [of r "rows b" c "cols b"]
  by (simp add: getCell_def gridBoard_def)

lemma getCell_Some_index:
  "getCell b r c = Some i \<Longrightarrow> int i = r * cols b + c \<and> 0 \<le> r \<and> r < rows b \<and> 0 \<le> c \<and> c < cols b"
  by (auto simp: getCell_def split: if_splits)

lemma getCell_position:
  assumes "gridBoard b" "getCell b r c = Some i"
  shows "row (cellAt b i) = r \<and> col (cellAt b i) = c"
proof -
  from getCell_Some_index [OF assms(2)] have i: "int i = r * cols b + c"
    and b: "0 \<le> r" "0 \<le> c" "c < cols b" by auto
  have "i < length (cells b)" using assms(2) by (rule getCell_Some_less)
  with assms(1) have "row (cellAt b i) = int i div cols b" "col (cellAt b i) = int i mod cols b"
    by (auto simp: gridBoard_def)
  then show ?thesis using b by (simp add: i)
qed

lemma sameLayout_refl [simp]: "sameLayout b b"
  by (simp add: sameLayout_def)

lemma sameLayout_trans: "sameLayout a b \<Longrightarrow> sameLayout b c \<Longrightarrow> sameLayout a c"
  by (simp add: sameLayout_def)

lemma sameLayout_getCell: "sameLayout b b' \<Longrightarrow> getCell b' = getCell b"
  by (simp add: sameLayout_def getCell_def fun_eq_iff)

lemma sameLayout_getAdjacentCells: "sameLayout b b' \<Longrightarrow> getAdjacentCells b' = getAdjacentCells b"
  by (simp add: getAdjacentCells_def sameLayout_getCell fun_eq_iff)

lemma sameLayout_countAdjacentMines:
  "sameLayout b b' \<Longrightarrow> countAdjacentMines b' i = countAdjacentMines b i"
  by (simp add: countAdjacentMines_def sameLayout_getAdjacentCells) (simp add: sameLayout_def)

lemma sameLayout_gridBoard: "sameLayout b b' \<Longrightarrow> gridBoard b \<Longrightarrow> gridBoard b'"
  by (simp add: sameLayout_def gridBoard_def)

subsection \<open>Steps of placeMines\<close>

lemma randomIndex_less: "0 < n \<Longrightarrow> fst (randomIndex g n) < n"
proof -
  assume n: "0 < n"
  let ?q = "frac (g 0)"
  have "?q * of_nat n < of_nat n"
    using frac_lt_1 [of "g 0"] n by simp
  then have "\<lfloor>?q * of_nat n\<rfloor> < int n"
    by (simp add: floor_less_iff)
  moreover have "0 \<le> \<lfloor>?q * of_nat n\<rfloor>" by simp
  ultimately show ?thesis
    by (simp add: randomIndex_def Math_random_def nat_less_iff)
qed

lemma shuffleLoop_set:
  "k < length xs \<Longrightarrow> set (fst (shuffleLoop k g xs)) = set xs"
proof (induction k arbitrary: g xs)
  case 0
  then show ?case by simp
next
  case (Suc k)
  obtain j g' where jg: "randomIndex g (Suc (Suc k)) = (j, g')"
    by (cases "randomIndex g (Suc (Suc k))")
  have "j < Suc (Suc k)" using randomIndex_less [of "Suc (Suc k)" g] jg by simp
  then have j: "j < length xs" using Suc.prems by simp
  have "set (xs[Suc k := xs ! j, j := xs ! Suc k]) = set xs"
    using Suc.prems j by (simp add: set_swap)
  moreover have "k < length (xs[Suc k := xs ! j, j := xs ! Suc k])"
    using Suc.prems by simp
  ultimately show ?case
    using Suc.IH [of "xs[Suc k := xs ! j, j := xs ! Suc k]" g'] by (simp add: jg)
qed

lemma shuffleArray_set: "set (fst (shuffleArray g xs)) = set xs"
proof (cases xs)
  case Nil
  then show ?thesis by (simp add: shuffleArray_def)
next
  case (Cons x ys)
  then show ?thesis by (simp add: shuffleArray_def shuffleLoop_set)
qed

lemma slice0_subset: "set (slice0 xs e) \<subseteq> set xs"
  by (auto simp: slice0_def dest: in_set_takeD)

lemma minePositions_valid: "set (minePositions b r c g) \<subseteq> set (validPositions b r c)"
  using slice0_subset shuffleArray_set by (fastforce simp: minePositions_def Let_def)

lemma cellAt_setMine:
  "cellAt (setMine b p) j =
     (if j = p \<and> p < length (cells b) then (cellAt b p)\<lparr>isMine := True\<rparr> else cellAt b j)"
  by (cases "j = p") (simp_all add: setMine_def cellAt_def list_update_beyond)

lemma setMine_shape [simp]:
  "rows (setMine b p) = rows b" "cols (setMine b p) = cols b"
  "length (cells (setMine b p)) = length (cells b)"
  "mineCount (setMine b p) = mineCount b" "powerupConfig (setMine b p) = powerupConfig b"
  by (simp_all add: setMine_def)

lemma foldl_setMine_shape [simp]:
  "rows (foldl setMine b ps) = rows b" "cols (foldl setMine b ps) = cols b"
  "length (cells (foldl setMine b ps)) = length (cells b)"
  "powerupConfig (foldl setMine b ps) = powerupConfig b"
  by (induction ps arbitrary: b) simp_all

lemma foldl_setMine_fields [simp]:
  "row (cellAt (foldl setMine b ps) j) = row (cellAt b j)"
  "col (cellAt (foldl setMine b ps) j) = col (cellAt b j)"
  "index (cellAt (foldl setMine b ps) j) = index (cellAt b j)"
  "adjacentMines (cellAt (foldl setMine b ps) j) = adjacentMines (cellAt b j)"
  by (induction ps arbitrary: b) (simp_all add: cellAt_setMine)

lemma isMine_foldl_setMine:
  "isMine (cellAt (foldl setMine b ps) j) =
     (isMine (cellAt b j) \<or> (j \<in> set ps \<and> j < length (cells b)))"
  by (induction ps arbitrary: b) (auto simp: cellAt_setMine)

lemma gridBoard_foldl_setMine: "gridBoard b \<Longrightarrow> gridBoard (foldl setMine b ps)"
  by (simp add: gridBoard_def)

lemma cellAt_setAdjacent:
  "cellAt (setAdjacent b i) j =
     (if j = i \<and> i < length (cells b) \<and> \<not> isMine (cellAt b i)
      then (cellAt b i)\<lparr>adjacentMines := countAdjacentMines b i\<rparr> else cellAt b j)"
  by (cases "j = i") (simp_all add: setAdjacent_def cellAt_def list_update_beyond)

lemma sameLayout_setAdjacent: "sameLayout b (setAdjacent b i)"
  by (simp add: sameLayout_def cellAt_setAdjacent) (simp add: setAdjacent_def)

lemma sameLayout_foldl_setAdjacent: "sameLayout b (foldl setAdjacent b is)"
proof (induction "is" arbitrary: b)
  case Nil
  then show ?case by simp
next
  case (Cons i "is")
  show ?case
    using sameLayout_trans [OF sameLayout_setAdjacent Cons.IH] by simp
qed

lemma adjacentMines_foldl_setAdjacent:
  "adjacentMines (cellAt (foldl setAdjacent b is) j) =
     (if j \<in> set is \<and> j < length (cells b) \<and> \<not> isMine (cellAt b j)
      then countAdjacentMines b j else adjacentMines (cellAt b j))"
proof (induction "is" arbitrary: b)
  case Nil
  then show ?case by simp
next
  case (Cons i "is")
  have sl: "sameLayout b (setAdjacent b i)" by (rule sameLayout_setAdjacent)
  then have eq: "countAdjacentMines (setAdjacent b i) j = countAdjacentMines b j"
      "isMine (cellAt (setAdjacent b i) j) = isMine (cellAt b j)"
      "length (cells (setAdjacent b i)) = length (cells b)"
    by (simp_all add: sameLayout_countAdjacentMines) (simp_all add: sameLayout_def)
  show ?case
    by (auto simp: Cons.IH eq cellAt_setAdjacent)
qed

lemma sameLayout_calcAdjacent: "sameLayout b (calcAdjacent b)"
  by (simp add: calcAdjacent_def sameLayout_foldl_setAdjacent)

lemma adjacentMines_calcAdjacent:
  "j < length (cells b) \<Longrightarrow> \<not> isMine (cellAt b j) \<Longrightarrow>
     adjacentMines (cellAt (calcAdjacent b) j) = countAdjacentMines b j"
  by (simp add: calcAdjacent_def adjacentMines_foldl_setAdjacent)

lemma powerupLoop_keeps:
  "sameLayout b (fst (powerupLoop ts ch b is g)) \<and>
   (\<forall>j. adjacentMines (cellAt (fst (powerupLoop ts ch b is g)) j) = adjacentMines (cellAt b j))"
proof (induction ts ch b "is" g rule: powerupLoop.induct)
  case (1 ts ch b g)
  then show ?case by simp
next
  case (2 ts ch b i "is" g)
  obtain r g1 where rg: "Math_random g = (r, g1)" by (cases "Math_random g")
  obtain k g2 where kg: "randomIndex g1 (length ts) = (k, g2)"
    by (cases "randomIndex g1 (length ts)")
  let ?b = "b\<lparr>cells := (cells b)[i := (cellAt b i)
                \<lparr>powerup := (if k < length ts then Some (ts ! k) else None)\<rparr>]\<rparr>"
  have cell: "cellAt ?b j =
      (if j = i \<and> i < length (cells b)
       then (cellAt b i)\<lparr>powerup := (if k < length ts then Some (ts ! k) else None)\<rparr>
       else cellAt b j)" for j
    by (cases "j = i") (simp_all add: cellAt_def list_update_beyond)
  have sl: "sameLayout b ?b" by (simp add: sameLayout_def cell)
  have adj: "adjacentMines (cellAt ?b j) = adjacentMines (cellAt b j)" for j
    by (simp add: cell)
  show ?case
  proof (cases "r < ch")
    case True
    with 2(1) [OF rg [symmetric] True kg [symmetric]] sl adj show ?thesis
      by (auto simp: rg kg intro: sameLayout_trans)
  next
    case False
    with 2(2) [OF rg [symmetric] False] show ?thesis by (simp add: rg)
  qed
qed

lemma placePowerups_keeps:
  "sameLayout b (fst (placePowerups pc b g)) \<and>
   (\<forall>j. adjacentMines (cellAt (fst (placePowerups pc b g)) j) = adjacentMines (cellAt b j))"
  unfolding placePowerups_def by (rule powerupLoop_keeps)

lemma getCell_foldl_setMine [simp]: "getCell (foldl setMine b ps) = getCell b"
  by (simp add: getCell_def fun_eq_iff)

lemma getAdjacentCells_foldl_setMine [simp]:
  "getAdjacentCells (foldl setMine b ps) = getAdjacentCells b"
  by (simp add: getAdjacentCells_def fun_eq_iff)

lemma placeMines_fresh:
  assumes "\<not> minesPlaced b"
  shows "sameLayout (foldl setMine b (minePositions b r c g)) (fst (placeMines b r c g))"
    and "adjacentMines (cellAt (fst (placeMines b r c g)) j) =
         adjacentMines (cellAt (calcAdjacent (foldl setMine b (minePositions b r c g))) j)"
proof -
  let ?b1 = "foldl setMine b (minePositions b r c g)"
  let ?b2 = "calcAdjacent ?b1"
  let ?g1 = "snd (shuffleArray g (validPositions b r c))"
  have upd: "sameLayout x (y\<lparr>minesPlaced := True\<rparr>) = sameLayout x y"
    "cellAt (y\<lparr>minesPlaced := True\<rparr>) = cellAt y" for x y
    by (simp_all add: sameLayout_def cellAt_def fun_eq_iff)
  have s12: "sameLayout ?b1 ?b2" by (rule sameLayout_calcAdjacent)
  have pm: "fst (placeMines b r c g) =
      (case powerupConfig ?b2 of
         None \<Rightarrow> ?b2
       | Some pc \<Rightarrow> if enabled pc then fst (placePowerups pc ?b2 ?g1) else ?b2)
      \<lparr>minesPlaced := True\<rparr>"
    using assms by (simp add: placeMines_def Let_def split: option.splits prod.splits)
  show "sameLayout ?b1 (fst (placeMines b r c g))"
    unfolding pm upd
    using s12 sameLayout_trans [OF s12 placePowerups_keeps [THEN conjunct1]]
    by (simp split: option.splits)
  show "adjacentMines (cellAt (fst (placeMines b r c g)) j) = adjacentMines (cellAt ?b2 j)"
    unfolding pm upd
    using placePowerups_keeps [THEN conjunct2]
    by (simp split: option.splits)
qed

lemma neighbour_in_getAdjacentCells:
  assumes "getCell b r' c' = Some j" "\<bar>r' - r\<bar> \<le> 1" "\<bar>c' - c\<bar> \<le> 1" "(r', c') \<noteq> (r, c)"
  shows "j \<in> set (getAdjacentCells b r c)"
proof -
  have "(r' - r, c' - c) \<in> set directions"
  proof -
    have "r' - r = - 1 \<or> r' - r = 0 \<or> r' - r = 1" using assms(2) by linarith
    moreover have "c' - c = - 1 \<or> c' - c = 0 \<or> c' - c = 1" using assms(3) by linarith
    moreover have "\<not> (r' - r = 0 \<and> c' - c = 0)" using assms(4) by simp
    ultimately show ?thesis by (auto simp: directions_def)
  qed
  moreover have "getCell b (r + (r' - r)) (c + (c' - c)) = Some j" using assms(1) by simp
  ultimately show ?thesis
    unfolding getAdjacentCells_def map_filter_def by (force simp: image_iff)
qed

lemma safeZone_not_mined:
  assumes grid: "gridBoard b"
    and cell: "getCell b r' c' = Some i" and near: "\<bar>r' - r\<bar> \<le> 1" "\<bar>c' - c\<bar> \<le> 1"
  shows "i \<notin> set (minePositions b r c g)"
proof -
  have len: "i < length (cells b)" using cell by (rule getCell_Some_less)
  have "int i \<in> set (safeZone b r c)"
  proof (cases "(r', c') = (r, c)")
    case True
    then show ?thesis using getCell_Some_index [OF cell] by (simp add: safeZone_def)
  next
    case False
    then have "i \<in> set (getAdjacentCells b r c)"
      using neighbour_in_getAdjacentCells [OF cell near] by simp
    moreover have "index (cellAt b i) = int i" using grid len by (simp add: gridBoard_def)
    ultimately show ?thesis by (force simp: safeZone_def)
  qed
  then have "i \<notin> set (validPositions b r c)" by (simp add: validPositions_def)
  then show ?thesis using minePositions_valid [of b r c g] by blast
qed

subsection \<open>Mine placement\<close>

text \<open>
  C3: on a board made by \<^verbatim>\<open>create\<close>, after \<^verbatim>\<open>placeMines\<close> with safe click \<open>(r, c)\<close> and
  any random source, every grid position within one step of \<open>(r, c)\<close> in each direction
  (the safe cell itself and each of its neighbours that exists) holds a cell that is not a
  mine.
\<close>

theorem safe_zone_has_no_mines:
  "\<forall>r' c'. \<bar>r' - r\<bar> \<le> 1 \<and> \<bar>c' - c\<bar> \<le> 1 \<and> 0 \<le> r' \<and> r' < rs \<and> 0 \<le> c' \<and> c' < cs \<longrightarrow>
     (\<exists>i. getCell (fst (placeMines (create rs cs mc pc) r c g)) r' c' = Some i \<and>
          \<not> isMine (cellAt (fst (placeMines (create rs cs mc pc) r c g)) i))"
proof (intro allI impI)
  fix r' c'
  assume h: "\<bar>r' - r\<bar> \<le> 1 \<and> \<bar>c' - c\<bar> \<le> 1 \<and> 0 \<le> r' \<and> r' < rs \<and> 0 \<le> c' \<and> c' < cs"
  let ?b = "create rs cs mc pc"
  let ?b1 = "foldl setMine ?b (minePositions ?b r c g)"
  let ?b' = "fst (placeMines ?b r c g)"
  have grid: "gridBoard ?b" by (rule gridBoard_create)
  obtain i where i: "getCell ?b r' c' = Some i"
    using getCell_gridBoard [OF grid, of r' c'] h by simp
  have len: "i < length (cells ?b)" using i by (rule getCell_Some_less)
  have sl: "sameLayout ?b1 ?b'" by (rule placeMines_fresh) simp
  have "getCell ?b' r' c' = Some i"
    using i by (simp add: sameLayout_getCell [OF sl])
  moreover have "\<not> isMine (cellAt ?b1 i)"
    using safeZone_not_mined [OF grid i, of r c g] h create_no_mines [OF len]
    by (simp add: isMine_foldl_setMine)
  then have "\<not> isMine (cellAt ?b' i)" using sl by (simp add: sameLayout_def)
  ultimately show "\<exists>i. getCell ?b' r' c' = Some i \<and> \<not> isMine (cellAt ?b' i)" by blast
qed

theorem safe_zone_has_no_mines_witness:
  "\<bar>(0::int) - 0\<bar> \<le> 1 \<and> \<bar>(3::int) - 2\<bar> \<le> 1 \<and> (0::int) \<le> 0 \<and> (0::int) < 1 \<and> (0::int) \<le> 3 \<and>
   (3::int) < 5 \<and>
   (\<exists>i. getCell (fst (placeMines (create 1 5 1 None) 0 2 (rngOfList []))) 0 3 = Some i \<and>
        \<not> isMine (cellAt (fst (placeMines (create 1 5 1 None) 0 2 (rngOfList []))) i))"
  using safe_zone_has_no_mines [of 0 2 1 5 1 None "rngOfList []"] by simp

lemma mine_count_via_mineAt:
  assumes "gridBoard b"
  shows "length (filter (\<lambda>j. isMine (cellAt b j))
           (List.map_filter (\<lambda>(dr, dc). getCell b (r + dr) (c + dc)) ds)) =
         length (filter (\<lambda>(dr, dc). mineAt b (r + dr) (c + dc)) ds)"
proof (induction ds)
  case Nil
  then show ?case by simp
next
  case (Cons d ds)
  obtain dr dc where d: "d = (dr, dc)" by (cases d)
  show ?case
  proof (cases "0 \<le> r + dr \<and> r + dr < rows b \<and> 0 \<le> c + dc \<and> c + dc < cols b")
    case True
    then have "getCell b (r + dr) (c + dc) = Some (nat ((r + dr) * cols b + (c + dc)))"
      using getCell_gridBoard [OF assms] by simp
    with True Cons.IH show ?thesis by (simp add: d mineAt_def cellAt_def)
  next
    case False
    then have "getCell b (r + dr) (c + dc) = None" by (auto simp: getCell_def)
    with False Cons.IH show ?thesis by (auto simp: d mineAt_def)
  qed
qed

lemma countAdjacentMines_bruteForce:
  assumes "gridBoard b"
  shows "countAdjacentMines b i = bruteForceCount b (row (cellAt b i)) (col (cellAt b i))"
proof -
  have "bruteForceCount b r c =
      length (filter (\<lambda>(dr, dc). mineAt b (r + dr) (c + dc)) directions)" for r c
    by (simp add: bruteForceCount_def directions_def)
  then show ?thesis
    by (simp add: countAdjacentMines_def getAdjacentCells_def mine_count_via_mineAt [OF assms])
qed

text \<open>
  C6: on a board made by \<^verbatim>\<open>create\<close>, after \<^verbatim>\<open>placeMines\<close> every cell that is not a mine
  has \<open>adjacentMines\<close> equal to the brute-force count of the mines around its position.
\<close>

theorem adjacentMines_is_brute_force_count:
  "\<forall>i < length (cells (fst (placeMines (create rs cs mc pc) r c g))).
     \<not> isMine (cellAt (fst (placeMines (create rs cs mc pc) r c g)) i) \<longrightarrow>
     adjacentMines (cellAt (fst (placeMines (create rs cs mc pc) r c g)) i) =
       bruteForceCount (fst (placeMines (create rs cs mc pc) r c g))
         (row (cellAt (fst (placeMines (create rs cs mc pc) r c g)) i))
         (col (cellAt (fst (placeMines (create rs cs mc pc) r c g)) i))"
proof (intro allI impI)
  fix i
  let ?b = "create rs cs mc pc"
  let ?b1 = "foldl setMine ?b (minePositions ?b r c g)"
  let ?b' = "fst (placeMines ?b r c g)"
  assume len: "i < length (cells ?b')" and safe: "\<not> isMine (cellAt ?b' i)"
  have sl: "sameLayout ?b1 ?b'" by (rule placeMines_fresh) simp
  have grid1: "gridBoard ?b1" by (intro gridBoard_foldl_setMine gridBoard_create)
  have grid': "gridBoard ?b'" using sl grid1 by (rule sameLayout_gridBoard)
  have len1: "i < length (cells ?b1)" using len sl by (simp add: sameLayout_def)
  have safe1: "\<not> isMine (cellAt ?b1 i)" using safe sl by (simp add: sameLayout_def)
  have "adjacentMines (cellAt ?b' i) = adjacentMines (cellAt (calcAdjacent ?b1) i)"
    by (rule placeMines_fresh) simp
  also have "\<dots> = countAdjacentMines ?b1 i"
    using len1 safe1 by (rule adjacentMines_calcAdjacent)
  also have "\<dots> = countAdjacentMines ?b' i"
    using sl by (simp add: sameLayout_countAdjacentMines)
  also have "\<dots> = bruteForceCount ?b' (row (cellAt ?b' i)) (col (cellAt ?b' i))"
    using grid' by (rule countAdjacentMines_bruteForce)
  finally show "adjacentMines (cellAt ?b' i) =
      bruteForceCount ?b' (row (cellAt ?b' i)) (col (cellAt ?b' i))" .
qed

theorem adjacentMines_is_brute_force_count_witness:
  "(3::nat) < length (cells (fst (placeMines (create 1 5 1 None) 0 2 (rngOfList [])))) \<and>
   \<not> isMine (cellAt (fst (placeMines (create 1 5 1 None) 0 2 (rngOfList []))) 3) \<and>
   adjacentMines (cellAt (fst (placeMines (create 1 5 1 None) 0 2 (rngOfList []))) 3) =
     bruteForceCount (fst (placeMines (create 1 5 1 None) 0 2 (rngOfList [])))
       (row (cellAt (fst (placeMines (create 1 5 1 None) 0 2 (rngOfList []))) 3))
       (col (cellAt (fst (placeMines (create 1 5 1 None) 0 2 (rngOfList []))) 3)) \<and>
   bruteForceCount (fst (placeMines (create 1 5 1 None) 0 2 (rngOfList []))) 0 3 = 1"
proof -
  have h: "(3::nat) < length (cells (fst (placeMines (create 1 5 1 None) 0 2 (rngOfList [])))) \<and>
      \<not> isMine (cellAt (fst (placeMines (create 1 5 1 None) 0 2 (rngOfList []))) 3)"
    by code_simp
  have v: "bruteForceCount (fst (placeMines (create 1 5 1 None) 0 2 (rngOfList []))) 0 3 = 1"
    by code_simp
  show ?thesis
    using h v adjacentMines_is_brute_force_count [of 1 5 1 None 0 2 "rngOfList []"]
    by blast
qed

subsection \<open>Chord reveal\<close>

lemma foldl_mergeResult:
  "revealed (foldl mergeResult res calls) = revealed res @ concat (map revealed calls) \<and>
   hitMine (foldl mergeResult res calls) = (hitMine res \<or> (\<exists>rr \<in> set calls. hitMine rr)) \<and>
   explodedCell (foldl mergeResult res calls) =
     (if filter hitMine calls = [] then explodedCell res
      else explodedCell (last (filter hitMine calls))) \<and>
   powerupFound (foldl mergeResult res calls) =
     (if filter (\<lambda>rr. truthy (powerupFound rr)) calls = [] then powerupFound res
      else powerupFound (last (filter (\<lambda>rr. truthy (powerupFound rr)) calls)))"
proof (induction calls rule: rev_induct)
  case Nil
  then show ?case by simp
next
  case (snoc rr calls)
  then show ?case by (auto simp: mergeResult_def)
qed

lemma chordLoop_is_merge:
  "snd (chordLoop b adj res) = foldl mergeResult res (chordCalls b adj)"
  by (induction b adj res rule: chordLoop.induct) (auto split: prod.splits)

lemma foldl_setRevealed_shape [simp]:
  "rows (foldl setRevealed b xs) = rows b" "cols (foldl setRevealed b xs) = cols b"
  "length (cells (foldl setRevealed b xs)) = length (cells b)"
  by (induction xs arbitrary: b) simp_all

lemma foldl_setRevealed_fields [simp]:
  "isFlagged (cellAt (foldl setRevealed b xs) j) = isFlagged (cellAt b j)"
  "isMine (cellAt (foldl setRevealed b xs) j) = isMine (cellAt b j)"
  "row (cellAt (foldl setRevealed b xs) j) = row (cellAt b j)"
  "col (cellAt (foldl setRevealed b xs) j) = col (cellAt b j)"
  by (induction xs arbitrary: b) simp_all

lemma revealCell_board:
  "\<exists>xs. fst (revealCell b r c) = foldl setRevealed b xs \<and>
        (getCell b r c = Some i \<and> \<not> isRevealed (cellAt b i) \<and> \<not> isFlagged (cellAt b i) \<longrightarrow>
           i \<in> set xs)"
proof (cases "getCell b r c = Some i \<and> \<not> isRevealed (cellAt b i) \<and> \<not> isFlagged (cellAt b i)")
  case True
  then have len: "i < length (cells b)" by (auto dest: getCell_Some_less)
  have rc: "revealCell b r c = revealLoop b [i] []" using True by (simp add: revealCell_def)
  have "i \<in> set (newlyRevealed b [i] [])"
    using True len by (simp add: newlyRevealed_Cons)
  then show ?thesis
    unfolding rc fst_revealLoop by blast
next
  case False
  from revealCell_cases [of b r c] show ?thesis
  proof (elim disjE exE conjE)
    assume "revealCell b r c = (b, emptyResult)"
    then have "fst (revealCell b r c) = foldl setRevealed b []" by simp
    with False show ?thesis by blast
  next
    fix k assume "revealCell b r c = revealLoop b [k] []"
    then have "fst (revealCell b r c) = foldl setRevealed b (newlyRevealed b [k] [])"
      by (simp add: fst_revealLoop del: revealLoop.simps)
    with False show ?thesis by blast
  qed
qed

lemma ownPosition_foldl_setRevealed [simp]:
  "ownPosition (foldl setRevealed b xs) j = ownPosition b j"
  by (simp add: ownPosition_def getCell_def)

lemma chordLoop_board:
  "(isRevealed (cellAt b j) \<longrightarrow> isRevealed (cellAt (fst (chordLoop b adj res)) j)) \<and>
   isFlagged (cellAt (fst (chordLoop b adj res)) j) = isFlagged (cellAt b j)"
proof (induction b adj res rule: chordLoop.induct)
  case (1 b res)
  then show ?case by simp
next
  case (2 b a rest res)
  show ?case
  proof (cases "\<not> isRevealed (cellAt b a) \<and> \<not> isFlagged (cellAt b a)")
    case True
    obtain b' rr where call: "revealCell b (row (cellAt b a)) (col (cellAt b a)) = (b', rr)"
      by (cases "revealCell b (row (cellAt b a)) (col (cellAt b a))")
    obtain xs where xs: "b' = foldl setRevealed b xs"
      using revealCell_board [of b "row (cellAt b a)" "col (cellAt b a)"] call by auto
    show ?thesis
      using 2(1) [OF True call [symmetric]] True
      by (simp add: call xs isRevealed_foldl_setRevealed)
  next
    case False
    with 2(2) show ?thesis by auto
  qed
qed

lemma chordLoop_covers:
  "\<forall>j \<in> set adj. ownPosition b j \<Longrightarrow> j \<in> set adj \<Longrightarrow>
     isRevealed (cellAt (fst (chordLoop b adj res)) j) \<or>
     isFlagged (cellAt (fst (chordLoop b adj res)) j)"
proof (induction b adj res rule: chordLoop.induct)
  case (1 b res)
  then show ?case by simp
next
  case (2 b a rest res)
  show ?case
  proof (cases "\<not> isRevealed (cellAt b a) \<and> \<not> isFlagged (cellAt b a)")
    case True
    obtain b' rr where call: "revealCell b (row (cellAt b a)) (col (cellAt b a)) = (b', rr)"
      by (cases "revealCell b (row (cellAt b a)) (col (cellAt b a))")
    have own: "getCell b (row (cellAt b a)) (col (cellAt b a)) = Some a"
      using 2(3) by (simp add: ownPosition_def)
    obtain xs where xs: "b' = foldl setRevealed b xs" "a \<in> set xs"
      using revealCell_board [of b "row (cellAt b a)" "col (cellAt b a)" a] call own True
      by auto
    have len: "a < length (cells b)" using own by (rule getCell_Some_less)
    have step: "chordLoop b (a # rest) res = chordLoop b' rest (mergeResult res rr)"
      using True by (simp add: call)
    show ?thesis
    proof (cases "j = a")
      case True
      have "isRevealed (cellAt b' a)" using xs len by (simp add: isRevealed_foldl_setRevealed)
      then show ?thesis
        using chordLoop_board [of b' a rest "mergeResult res rr"] True by (simp add: step del: chordLoop.simps)
    next
      case False
      then have "j \<in> set rest" using 2(4) by simp
      moreover have "\<forall>j \<in> set rest. ownPosition b' j" using 2(3) by (simp add: xs)
      ultimately show ?thesis
        using 2(1) [OF True call [symmetric]] by (simp add: step del: chordLoop.simps)
    qed
  next
    case False
    then have step: "chordLoop b (a # rest) res = chordLoop b rest res" by auto
    show ?thesis
    proof (cases "j = a")
      case True
      then show ?thesis
        using False chordLoop_board [of b a rest res] by (auto simp: step simp del: chordLoop.simps)
    next
      case nota: False
      then have "j \<in> set rest" using 2(4) by simp
      then show ?thesis using 2(2) [OF False] 2(3) by (simp add: step del: chordLoop.simps)
    qed
  qed
qed

text \<open>
  C2 (as the code has it): when \<^verbatim>\<open>chordReveal\<close> proceeds, the merged result lists the
  revealed cells of all neighbour calls in call order, has \<open>hitMine\<close> exactly when some call
  hit a mine, and carries the \<open>explodedCell\<close> of the last call that hit a mine and the
  power-up of the last call that returned one. Every neighbour that is unrevealed and
  unflagged at its turn is passed to \<^verbatim>\<open>revealCell\<close>, also after a mine or a power-up has
  been met: if the neighbours record their own positions, each of them is revealed or
  flagged when \<^verbatim>\<open>chordReveal\<close> returns.
\<close>

theorem chordReveal_merges_all_neighbour_calls:
  "getCell b r c = Some i \<and> isRevealed (cellAt b i) \<and> 0 < adjacentMines (cellAt b i) \<and>
   flaggedCount b r c = adjacentMines (cellAt b i) \<longrightarrow>
     revealed (snd (chordReveal b r c)) =
       concat (map revealed (chordCalls b (getAdjacentCells b r c))) \<and>
     hitMine (snd (chordReveal b r c)) =
       (\<exists>rr \<in> set (chordCalls b (getAdjacentCells b r c)). hitMine rr) \<and>
     explodedCell (snd (chordReveal b r c)) =
       (if filter hitMine (chordCalls b (getAdjacentCells b r c)) = [] then None
        else explodedCell (last (filter hitMine (chordCalls b (getAdjacentCells b r c))))) \<and>
     powerupFound (snd (chordReveal b r c)) =
       (if filter (\<lambda>rr. truthy (powerupFound rr)) (chordCalls b (getAdjacentCells b r c)) = []
        then None
        else powerupFound
               (last (filter (\<lambda>rr. truthy (powerupFound rr))
                        (chordCalls b (getAdjacentCells b r c))))) \<and>
     ((\<forall>j \<in> set (getAdjacentCells b r c). ownPosition b j) \<longrightarrow>
        (\<forall>j \<in> set (getAdjacentCells b r c).
           isRevealed (cellAt (fst (chordReveal b r c)) j) \<or>
           isFlagged (cellAt (fst (chordReveal b r c)) j)))"
proof
  assume h: "getCell b r c = Some i \<and> isRevealed (cellAt b i) \<and> 0 < adjacentMines (cellAt b i) \<and>
      flaggedCount b r c = adjacentMines (cellAt b i)"
  let ?adj = "getAdjacentCells b r c"
  have cr: "chordReveal b r c = chordLoop b ?adj emptyResult"
    using h by (simp add: chordReveal_def)
  have res: "snd (chordReveal b r c) = foldl mergeResult emptyResult (chordCalls b ?adj)"
    by (simp add: cr chordLoop_is_merge)
  have cover: "\<forall>j \<in> set ?adj.
      isRevealed (cellAt (fst (chordReveal b r c)) j) \<or>
      isFlagged (cellAt (fst (chordReveal b r c)) j)"
    if "\<forall>j \<in> set ?adj. ownPosition b j"
    unfolding cr using chordLoop_covers [OF that] by blast
  show "revealed (snd (chordReveal b r c)) = concat (map revealed (chordCalls b ?adj)) \<and>
     hitMine (snd (chordReveal b r c)) = (\<exists>rr \<in> set (chordCalls b ?adj). hitMine rr) \<and>
     explodedCell (snd (chordReveal b r c)) =
       (if filter hitMine (chordCalls b ?adj) = [] then None
        else explodedCell (last (filter hitMine (chordCalls b ?adj)))) \<and>
     powerupFound (snd (chordReveal b r c)) =
       (if filter (\<lambda>rr. truthy (powerupFound rr)) (chordCalls b ?adj) = [] then None
        else powerupFound (last (filter (\<lambda>rr. truthy (powerupFound rr)) (chordCalls b ?adj)))) \<and>
     ((\<forall>j \<in> set ?adj. ownPosition b j) \<longrightarrow>
        (\<forall>j \<in> set ?adj.
           isRevealed (cellAt (fst (chordReveal b r c)) j) \<or>
           isFlagged (cellAt (fst (chordReveal b r c)) j)))"
    unfolding res
    using foldl_mergeResult [of emptyResult "chordCalls b ?adj"] cover
    by (simp add: emptyResult_def)
qed

theorem chordReveal_merges_all_neighbour_calls_witness:
  "getCell chordBoard 2 2 = Some 10 \<and> isRevealed (cellAt chordBoard 10) \<and>
   0 < adjacentMines (cellAt chordBoard 10) \<and>
   flaggedCount chordBoard 2 2 = adjacentMines (cellAt chordBoard 10) \<and>
   list_all (ownPosition chordBoard) (getAdjacentCells chordBoard 2 2) \<and>
   hitMine (snd (chordReveal chordBoard 2 2)) \<and>
   explodedCell (snd (chordReveal chordBoard 2 2)) = Some 13 \<and>
   list_all (\<lambda>j. isRevealed (cellAt (fst (chordReveal chordBoard 2 2)) j) \<or>
                 isFlagged (cellAt (fst (chordReveal chordBoard 2 2)) j))
     (getAdjacentCells chordBoard 2 2)"
proof -
  have h1: "getCell chordBoard 2 2 = Some 10 \<and> isRevealed (cellAt chordBoard 10) \<and>
      0 < adjacentMines (cellAt chordBoard 10) \<and>
      flaggedCount chordBoard 2 2 = adjacentMines (cellAt chordBoard 10)"
    by code_simp
  have h2: "list_all (ownPosition chordBoard) (getAdjacentCells chordBoard 2 2)"
    by code_simp
  have v: "filter hitMine (chordCalls chordBoard (getAdjacentCells chordBoard 2 2)) \<noteq> [] \<and>
      explodedCell (last (filter hitMine (chordCalls chordBoard (getAdjacentCells chordBoard 2 2))))
        = Some 13 \<and>
      (\<exists>rr \<in> set (chordCalls chordBoard (getAdjacentCells chordBoard 2 2)). hitMine rr)"
    by code_simp
  show ?thesis
    using h1 h2 v chordReveal_merges_all_neighbour_calls [of chordBoard 2 2 10]
    unfolding list_all_iff by simp
qed

text \<open>
  C2 (as stated) fails where two neighbour calls hit a mine: the chord on \<open>(2, 2)\<close> of
  \<open>chordBoard\<close> proceeds, the first call that hits a mine explodes cell 7, the second
  explodes cell 13, and the merged result surfaces cell 13.
\<close>

theorem chordReveal_first_mine_counterexample:
  "getCell chordBoard 2 2 = Some 10 \<and> isRevealed (cellAt chordBoard 10) \<and>
   0 < adjacentMines (cellAt chordBoard 10) \<and>
   flaggedCount chordBoard 2 2 = adjacentMines (cellAt chordBoard 10) \<and>
   map explodedCell (filter hitMine (chordCalls chordBoard (getAdjacentCells chordBoard 2 2)))
     = [Some 7, Some 13] \<and>
   explodedCell (snd (chordReveal chordBoard 2 2)) \<noteq> Some 7"
  by code_simp

subsection \<open>Flood fill\<close>

lemma cascadeNeighbours_setRevealed:
  "cur < length (cells b) \<Longrightarrow>
     set (cascadeNeighbours (setRevealed b cur) x) = set (cascadeNeighbours b x) - {cur}"
  by (auto simp: cascadeNeighbours_def isRevealed_setRevealed)

lemma cascadeNeighbours_live:
  "y \<in> set (cascadeNeighbours b x) \<Longrightarrow>
     y < length (cells b) \<and> \<not> isRevealed (cellAt b y) \<and> \<not> isFlagged (cellAt b y) \<and>
     \<not> isMine (cellAt b y)"
  by (auto simp: cascadeNeighbours_def dest: getAdjacentCells_less)

lemma live_setRevealed:
  "cur < length (cells b) \<Longrightarrow> live (setRevealed b cur) wl = live b wl - {cur}"
  by (auto simp: live_def isRevealed_setRevealed)

lemma live_Cons:
  "live b (cur # rest) =
     (if cur < length (cells b) \<and> \<not> isRevealed (cellAt b cur) \<and> \<not> isFlagged (cellAt b cur)
      then insert cur (live b rest) else live b rest)"
  by (auto simp: live_def)

lemma openRegion_mono:
  assumes "x \<in> openRegion b' S'"
    and starts: "S' \<subseteq> openRegion b S"
    and steps: "\<And>u. adjacentMines (cellAt b' u) = 0 \<Longrightarrow>
        set (cascadeNeighbours b' u) \<subseteq> set (cascadeNeighbours b u) \<and> adjacentMines (cellAt b u) = 0"
  shows "x \<in> openRegion b S"
  using assms(1)
proof (induction rule: openRegion.induct)
  case (start x)
  then show ?case using starts by blast
next
  case (step x y)
  then show ?case using steps [of x] by (blast intro: openRegion.step)
qed

lemma region_step:
  assumes cur: "cur < length (cells b)" "\<not> isRevealed (cellAt b cur)" "\<not> isFlagged (cellAt b cur)"
    and S': "S' = (if adjacentMines (cellAt b cur) = 0
                   then set (cascadeNeighbours (setRevealed b cur) cur) else {}) \<union>
                  live (setRevealed b cur) rest"
  shows "openRegion b (live b (cur # rest)) = insert cur (openRegion (setRevealed b cur) S')"
proof -
  let ?b' = "setRevealed b cur"
  let ?S = "live b (cur # rest)"
  have S: "?S = insert cur (live b rest)" using cur by (simp add: live_Cons)
  have curS: "cur \<in> openRegion b ?S" by (rule openRegion.start) (simp add: S)
  have A: "x \<in> openRegion b ?S" if "x \<in> openRegion ?b' S'" for x
    using that
  proof (rule openRegion_mono)
    show "S' \<subseteq> openRegion b ?S"
    proof
      fix y assume "y \<in> S'"
      then consider (nb) "adjacentMines (cellAt b cur) = 0" "y \<in> set (cascadeNeighbours ?b' cur)"
        | (old) "y \<in> live ?b' rest"
        unfolding S' by (auto split: if_splits)
      then show "y \<in> openRegion b ?S"
      proof cases
        case nb
        then have "y \<in> set (cascadeNeighbours b cur)"
          using cur(1) by (simp add: cascadeNeighbours_setRevealed)
        with curS nb(1) show ?thesis by (rule openRegion.step)
      next
        case old
        then have "y \<in> ?S" using cur(1) by (simp add: live_setRevealed S)
        then show ?thesis by (rule openRegion.start)
      qed
    qed
  next
    fix u assume "adjacentMines (cellAt ?b' u) = 0"
    then show "set (cascadeNeighbours ?b' u) \<subseteq> set (cascadeNeighbours b u) \<and>
        adjacentMines (cellAt b u) = 0"
      using cur(1) by (auto simp: cascadeNeighbours_setRevealed)
  qed
  have B: "x = cur \<or> x \<in> openRegion ?b' S'" if "x \<in> openRegion b ?S" for x
    using that
  proof (induction rule: openRegion.induct)
    case (start x)
    then have "x = cur \<or> x \<in> live ?b' rest"
      using cur(1) by (auto simp: S live_setRevealed)
    then show ?case by (auto simp: S' intro: openRegion.start)
  next
    case (step x y)
    show ?case
    proof (cases "y = cur")
      case True
      then show ?thesis by simp
    next
      case False
      then have y': "y \<in> set (cascadeNeighbours ?b' x)"
        using step.hyps(3) cur(1) by (simp add: cascadeNeighbours_setRevealed)
      from step.IH show ?thesis
      proof
        assume "x = cur"
        then have "y \<in> S'" using y' step.hyps(2) by (simp add: S')
        then show ?thesis by (blast intro: openRegion.start)
      next
        assume "x \<in> openRegion ?b' S'"
        moreover have "adjacentMines (cellAt ?b' x) = 0" using step.hyps(2) by simp
        ultimately show ?thesis using y' by (blast intro: openRegion.step)
      qed
    qed
  qed
  show ?thesis using A B curS by blast
qed

lemma newlyRevealed_region:
  "\<forall>x \<in> openRegion b (live b wl). \<not> isMine (cellAt b x) \<and> \<not> hasPowerup (cellAt b x) \<Longrightarrow>
     set (newlyRevealed b wl acc) = openRegion b (live b wl)"
proof (induction b wl acc rule: revealLoop.induct)
  case (1 b acc)
  have "x \<notin> openRegion b {}" for x
  proof
    assume "x \<in> openRegion b {}"
    then show False
      by (induction rule: openRegion.induct) (auto dest: cascadeNeighbours_live)
  qed
  then show ?case by (auto simp: live_def)
next
  case (2 b cur rest acc)
  let ?b' = "setRevealed b cur"
  show ?case
  proof (cases "cur < length (cells b) \<and> \<not> isRevealed (cellAt b cur) \<and> \<not> isFlagged (cellAt b cur)")
    case False
    then have l: "live b (cur # rest) = live b rest" by (auto simp: live_Cons)
    have n: "newlyRevealed b (cur # rest) acc = newlyRevealed b rest acc"
      using False by (auto simp: newlyRevealed_Cons)
    from False consider "length (cells b) \<le> cur"
      | "\<not> length (cells b) \<le> cur" "isRevealed (cellAt b cur) \<or> isFlagged (cellAt b cur)"
      by force
    then have "set (newlyRevealed b rest acc) = openRegion b (live b rest)"
    proof cases
      case 1
      then show ?thesis using 2(1) 2(5) by (simp add: l)
    next
      case 2
      then show ?thesis using "2.IH"(2) "2.prems" by (simp add: l)
    qed
    then show ?thesis by (simp add: l n)
  next
    case True
    then have cur: "cur < length (cells b)" "\<not> isRevealed (cellAt b cur)"
        "\<not> isFlagged (cellAt b cur)"
      by simp_all
    have "cur \<in> openRegion b (live b (cur # rest))"
      by (rule openRegion.start) (simp add: live_Cons cur)
    with 2(5) have ok: "\<not> isMine (cellAt b cur)" "\<not> hasPowerup (cellAt b cur)" by auto
    show ?thesis
    proof (cases "adjacentMines (cellAt b cur) = 0")
      case zero: True
      let ?wl = "rev (cascadeNeighbours ?b' cur) @ rest"
      have lw: "live ?b' ?wl = set (cascadeNeighbours ?b' cur) \<union> live ?b' rest"
        using cascadeNeighbours_live [of _ ?b' cur] by (auto simp: live_def)
      have reg: "openRegion b (live b (cur # rest)) = insert cur (openRegion ?b' (live ?b' ?wl))"
        using region_step [OF cur, of _ rest] zero by (simp add: lw)
      have "\<forall>x \<in> openRegion ?b' (live ?b' ?wl).
          \<not> isMine (cellAt ?b' x) \<and> \<not> hasPowerup (cellAt ?b' x)"
        using 2(5) by (simp add: reg)
      then have "set (newlyRevealed ?b' ?wl (acc @ [cur])) = openRegion ?b' (live ?b' ?wl)"
        using 2(3) cur ok zero by simp
      then show ?thesis
        using cur ok zero by (simp add: newlyRevealed_Cons reg)
    next
      case nonzero: False
      have reg: "openRegion b (live b (cur # rest)) = insert cur (openRegion ?b' (live ?b' rest))"
        using region_step [OF cur, of _ rest] nonzero by simp
      have "\<forall>x \<in> openRegion ?b' (live ?b' rest).
          \<not> isMine (cellAt ?b' x) \<and> \<not> hasPowerup (cellAt ?b' x)"
        using 2(5) by (simp add: reg)
      then have "set (newlyRevealed ?b' rest (acc @ [cur])) = openRegion ?b' (live ?b' rest)"
        using 2(4) cur ok nonzero by simp
      then show ?thesis
        using cur ok nonzero by (simp add: newlyRevealed_Cons reg)
    qed
  qed
qed

lemma openRegion_nonmine:
  "x \<in> openRegion b S \<Longrightarrow> x \<in> S \<or> \<not> isMine (cellAt b x)"
  by (induction rule: openRegion.induct) (auto dest: cascadeNeighbours_live)

lemma openRegion_floodRegion:
  assumes "\<forall>x \<in> floodRegion b i.
      \<not> isRevealed (cellAt b x) \<and> \<not> isFlagged (cellAt b x) \<and> \<not> isMine (cellAt b x)"
  shows "openRegion b {i} = floodRegion b i"
proof (intro set_eqI iffI)
  fix x assume "x \<in> openRegion b {i}"
  then show "x \<in> floodRegion b i"
  proof (induction rule: openRegion.induct)
    case (start x)
    then show ?case by (simp add: floodRegion.start)
  next
    case (step x y)
    then show ?case by (auto simp: cascadeNeighbours_def intro: floodRegion.step)
  qed
next
  fix x assume "x \<in> floodRegion b i"
  then show "x \<in> openRegion b {i}"
  proof (induction rule: floodRegion.induct)
    case start
    then show ?case by (simp add: openRegion.start)
  next
    case (step x y)
    have "y \<in> floodRegion b i" using step.hyps by (rule floodRegion.step)
    with assms have "y \<in> set (cascadeNeighbours b x)"
      using step.hyps(3) by (simp add: cascadeNeighbours_def)
    with step.IH step.hyps(2) show ?case by (rule openRegion.step)
  qed
qed

lemma openRegion_less:
  "x \<in> openRegion b S \<Longrightarrow> x \<in> S \<or> x < length (cells b)"
  by (induction rule: openRegion.induct) (auto dest: cascadeNeighbours_live)

lemma revealCell_distinct: "distinct (revealed (snd (revealCell b r c)))"
  using revealCell_cases [of b r c]
  by (auto simp: emptyResult_def revealed_revealLoop_Nil newlyRevealed_distinct
           simp del: revealLoop.simps)

text \<open>
  C4 (as the code has it): \<^verbatim>\<open>revealCell\<close> always returns (the loop is a total function),
  and no cell appears twice in \<open>revealed\<close>. When the target is an unrevealed, unflagged
  cell that is not a mine and no cell of the region open to the cascade carries a
  power-up, the call reveals exactly that region, each cell once, and reports neither a
  mine nor a power-up. When no cell of the zero-adjacency component with its border is
  revealed, flagged or a mine, the open region is that whole component with its border.
\<close>

theorem flood_fill_reveals_open_region:
  "distinct (revealed (snd (revealCell b r c))) \<and>
   (getCell b r c = Some i \<and> \<not> isRevealed (cellAt b i) \<and> \<not> isFlagged (cellAt b i) \<and>
    \<not> isMine (cellAt b i) \<and> (\<forall>x \<in> openRegion b {i}. \<not> hasPowerup (cellAt b x)) \<longrightarrow>
      set (revealed (snd (revealCell b r c))) = openRegion b {i} \<and>
      (\<forall>x \<in> openRegion b {i}. isRevealed (cellAt (fst (revealCell b r c)) x)) \<and>
      \<not> hitMine (snd (revealCell b r c)) \<and> powerupFound (snd (revealCell b r c)) = None \<and>
      ((\<forall>x \<in> floodRegion b i.
          \<not> isRevealed (cellAt b x) \<and> \<not> isFlagged (cellAt b x) \<and> \<not> isMine (cellAt b x)) \<longrightarrow>
       openRegion b {i} = floodRegion b i))"
proof (intro conjI impI)
  show "distinct (revealed (snd (revealCell b r c)))" by (rule revealCell_distinct)
next
  assume h: "getCell b r c = Some i \<and> \<not> isRevealed (cellAt b i) \<and> \<not> isFlagged (cellAt b i) \<and>
    \<not> isMine (cellAt b i) \<and> (\<forall>x \<in> openRegion b {i}. \<not> hasPowerup (cellAt b x))"
  let ?new = "newlyRevealed b [i] []"
  have len: "i < length (cells b)" using h by (auto dest: getCell_Some_less)
  have rc: "revealCell b r c = revealLoop b [i] []" using h by (simp add: revealCell_def)
  have lv: "live b [i] = {i}" using h len by (auto simp: live_def)
  have clean: "\<forall>x \<in> openRegion b (live b [i]). \<not> isMine (cellAt b x) \<and> \<not> hasPowerup (cellAt b x)"
    using h openRegion_nonmine [of _ b "{i}"] by (auto simp: lv)
  have new: "set ?new = openRegion b {i}"
    using newlyRevealed_region [OF clean, of "[]"] by (simp add: lv)
  have last: "?new \<noteq> [] \<Longrightarrow> last ?new \<in> openRegion b {i}"
    using new last_in_set [of ?new] by simp
  show "set (revealed (snd (revealCell b r c))) = openRegion b {i}"
    by (simp add: rc revealed_revealLoop_Nil new del: revealLoop.simps)
  show "\<forall>x \<in> openRegion b {i}. isRevealed (cellAt (fst (revealCell b r c)) x)"
    using newlyRevealed_unrevealed [of _ b "[i]" "[]"]
    by (auto simp: rc fst_revealLoop isRevealed_foldl_setRevealed new simp del: revealLoop.simps)
  show "\<not> hitMine (snd (revealCell b r c))"
    using last clean by (auto simp: rc revealLoop_flags(1) lv simp del: revealLoop.simps)
  show "powerupFound (snd (revealCell b r c)) = None"
    using last clean by (auto simp: rc revealLoop_flags(3) lv simp del: revealLoop.simps)
next
  assume "\<forall>x \<in> floodRegion b i.
      \<not> isRevealed (cellAt b x) \<and> \<not> isFlagged (cellAt b x) \<and> \<not> isMine (cellAt b x)"
  then show "openRegion b {i} = floodRegion b i" by (rule openRegion_floodRegion)
qed

theorem flood_fill_reveals_open_region_witness:
  "getCell mineBoard 0 2 = Some 2 \<and> \<not> isRevealed (cellAt mineBoard 2) \<and>
   \<not> isFlagged (cellAt mineBoard 2) \<and> \<not> isMine (cellAt mineBoard 2) \<and>
   list_all (\<lambda>c. \<not> hasPowerup c) (cells mineBoard) \<and>
   set (revealed (snd (revealCell mineBoard 0 2))) = floodRegion mineBoard 2 \<and>
   floodRegion mineBoard 2 = {0, 1, 2, 3} \<and>
   revealed (snd (revealCell mineBoard 0 2)) = [2, 3, 1, 0] \<and>
   \<not> hitMine (snd (revealCell mineBoard 0 2))"
proof -
  have h1: "getCell mineBoard 0 2 = Some 2 \<and> \<not> isRevealed (cellAt mineBoard 2) \<and>
      \<not> isFlagged (cellAt mineBoard 2) \<and> \<not> isMine (cellAt mineBoard 2)"
    by code_simp
  have all: "list_all (\<lambda>c. \<not> hasPowerup c) (cells mineBoard)" by code_simp
  have len: "length (cells mineBoard) = 5" by code_simp
  have h2: "\<forall>x \<in> openRegion mineBoard {2}. \<not> hasPowerup (cellAt mineBoard x)"
  proof
    fix x assume "x \<in> openRegion mineBoard {2}"
    then have "x < length (cells mineBoard)"
      using openRegion_less [of x mineBoard "{2}"] by (auto simp: len)
    then show "\<not> hasPowerup (cellAt mineBoard x)"
      using all by (simp add: list_all_length cellAt_def)
  qed
  have nbrs: "list_all (\<lambda>x. adjacentMines (cellAt mineBoard x) = 0 \<longrightarrow>
      list_all (\<lambda>y. y < 4)
        (getAdjacentCells mineBoard (row (cellAt mineBoard x)) (col (cellAt mineBoard x))))
      [0..<4]"
    by code_simp
  have below: "x < 4" if "x \<in> floodRegion mineBoard 2" for x
    using that
  proof (induction rule: floodRegion.induct)
    case start
    then show ?case by simp
  next
    case (step x y)
    then show ?case using nbrs by (auto simp: list_all_iff)
  qed
  have fresh: "list_all (\<lambda>x. \<not> isRevealed (cellAt mineBoard x) \<and> \<not> isFlagged (cellAt mineBoard x) \<and>
      \<not> isMine (cellAt mineBoard x)) [0..<4]"
    by code_simp
  have h3: "\<forall>x \<in> floodRegion mineBoard 2.
      \<not> isRevealed (cellAt mineBoard x) \<and> \<not> isFlagged (cellAt mineBoard x) \<and>
      \<not> isMine (cellAt mineBoard x)"
    using below fresh by (auto simp: list_all_iff)
  have v: "revealed (snd (revealCell mineBoard 0 2)) = [2, 3, 1, 0]" by code_simp
  have r: "set (revealed (snd (revealCell mineBoard 0 2))) = floodRegion mineBoard 2 \<and>
      \<not> hitMine (snd (revealCell mineBoard 0 2))"
    using h1 h2 h3 flood_fill_reveals_open_region [of mineBoard 0 2 2] by simp
  then have "floodRegion mineBoard 2 = set [2, 3, 1, 0]" unfolding v by simp
  also have "\<dots> = {0, 1, 2, 3}" by auto
  finally have fr: "floodRegion mineBoard 2 = {0, 1, 2, 3}" .
  from h1 all r fr v show ?thesis by blast
qed

text \<open>
  C4 (as stated) fails where a bordering cell carries a power-up: on \<open>powerBoard\<close> the
  target \<open>(0, 2)\<close> is an in-bounds, unrevealed, unflagged cell with no adjacent mine; cell 1
  is a zero-adjacency neighbour of it, hence in its component; the call stops at the
  shield on cell 3 and leaves cell 1 unrevealed.
\<close>

theorem flood_fill_stops_at_powerup_counterexample:
  "minesPlaced powerBoard \<and> getCell powerBoard 0 2 = Some 2 \<and>
   \<not> isRevealed (cellAt powerBoard 2) \<and> \<not> isFlagged (cellAt powerBoard 2) \<and>
   adjacentMines (cellAt powerBoard 2) = 0 \<and>
   1 \<in> floodRegion powerBoard 2 \<and> adjacentMines (cellAt powerBoard 1) = 0 \<and>
   revealed (snd (revealCell powerBoard 0 2)) = [2, 3] \<and>
   \<not> isRevealed (cellAt (fst (revealCell powerBoard 0 2)) 1)"
proof -
  have zero: "adjacentMines (cellAt powerBoard 2) = 0" by code_simp
  have nb: "1 \<in> set (getAdjacentCells powerBoard (row (cellAt powerBoard 2))
      (col (cellAt powerBoard 2)))"
    by code_simp
  have "1 \<in> floodRegion powerBoard 2"
    using floodRegion.start zero nb by (rule floodRegion.step)
  moreover have "minesPlaced powerBoard \<and> getCell powerBoard 0 2 = Some 2 \<and>
      \<not> isRevealed (cellAt powerBoard 2) \<and> \<not> isFlagged (cellAt powerBoard 2) \<and>
      adjacentMines (cellAt powerBoard 2) = 0 \<and> adjacentMines (cellAt powerBoard 1) = 0 \<and>
      revealed (snd (revealCell powerBoard 0 2)) = [2, 3] \<and>
      \<not> isRevealed (cellAt (fst (revealCell powerBoard 0 2)) 1)"
    by code_simp
  ultimately show ?thesis by simp
qed

end
